theory Spec2Isabelle
  imports Complex_Main
begin

section \<open>Rainbow delimiters: the colour utilities\<close>

text \<open>
  The userscript \<^verbatim>\<open>src/main.js\<close> is embedded function by function. JavaScript numbers
  that hold colour components are modelled as exact rationals (every finite double is a
  rational; the rounding of double arithmetic is not modelled), numbers that count
  (depth, indices, colour channels after \<^verbatim>\<open>Math.round\<close>) as integers.
\<close>

subsection \<open>JavaScript primitives used by the script\<close>

text \<open>The remainder operator \<^verbatim>\<open>%\<close> truncates towards zero: the result has the sign
  of the dividend. Both versions are for a divisor that is not zero.\<close>

definition js_rem :: "int \<Rightarrow> int \<Rightarrow> int" where
  "js_rem a n = sgn a * (\<bar>a\<bar> mod \<bar>n\<bar>)"

definition js_trunc :: "rat \<Rightarrow> int" where
  "js_trunc q = (if 0 \<le> q then \<lfloor>q\<rfloor> else \<lceil>q\<rceil>)"

definition js_fmod :: "rat \<Rightarrow> rat \<Rightarrow> rat" where
  "js_fmod a n = a - n * of_int (js_trunc (a / n))"

text \<open>\<^verbatim>\<open>Math.round\<close> rounds to the nearest integer, a tie towards plus infinity.\<close>

definition Math_round :: "rat \<Rightarrow> int" where
  "Math_round q = \<lfloor>q + 1 / 2\<rfloor>"

text \<open>\<^verbatim>\<open>Number.prototype.toString(16)\<close> on an integer: lowercase digits, no leading
  zero, a minus sign for a negative number.\<close>

definition hexDigits :: string where
  "hexDigits = ''0123456789abcdef''"

fun digits16 :: "nat \<Rightarrow> string" where
  "digits16 n = (if n < 16 then [hexDigits ! n]
                 else digits16 (n div 16) @ [hexDigits ! (n mod 16)])"

definition toString16 :: "int \<Rightarrow> string" where
  "toString16 n = (if n < 0 then CHR ''-'' # digits16 (nat (- n)) else digits16 (nat n))"

definition padStart :: "string \<Rightarrow> nat \<Rightarrow> char \<Rightarrow> string" where
  "padStart str n c = replicate (n - length str) c @ str"

text \<open>\<^verbatim>\<open>String.prototype.substring(a, b)\<close>: both indices are clamped to the length
  and swapped when the first is the larger one.\<close>

definition substring :: "string \<Rightarrow> nat \<Rightarrow> nat \<Rightarrow> string" where
  "substring str a b =
     (let a' = min a (length str); b' = min b (length str);
          lo = min a' b'; hi = max a' b'
      in take (hi - lo) (drop lo str))"

text \<open>Reading an array at a number: \<^verbatim>\<open>undefined\<close> (here \<open>None\<close>) outside the array.\<close>

definition array_get :: "'a list \<Rightarrow> int \<Rightarrow> 'a option" where
  "array_get xs i = (if 0 \<le> i \<and> i < int (length xs) then Some (xs ! nat i) else None)"

subsection \<open>ColorUtils\<close>

record color =
  h :: rat
  s :: rat
  l :: rat

record rgb =
  r :: int
  g :: int
  b :: int

definition HSL_TO_RGB_convert :: "rat \<Rightarrow> rat \<Rightarrow> rat \<Rightarrow> rgb" where
  "HSL_TO_RGB_convert h0 s0 l0 =
     (let s1 = s0 / 100;
          l1 = l0 / 100;
          c = (1 - \<bar>2 * l1 - 1\<bar>) * s1;
          x = c * (1 - \<bar>js_fmod (h0 / 60) 2 - 1\<bar>);
          m = l1 - c / 2;
          (r1, g1, b1) =
            (if h0 < 60 then (c, x, 0)
             else if h0 < 120 then (x, c, 0)
             else if h0 < 180 then (0, c, x)
             else if h0 < 240 then (0, x, c)
             else if h0 < 300 then (x, 0, c)
             else (c, 0, x))
      in \<lparr>r = Math_round ((r1 + m) * 255),
          g = Math_round ((g1 + m) * 255),
          b = Math_round ((b1 + m) * 255)\<rparr>)"

text \<open>\<^verbatim>\<open>hslToHex\<close> converts and then formats the three channels with a template
  literal; \<open>toHex\<close> is that template: the marker, and each channel as
  \<^verbatim>\<open>toString(16).padStart(2, '0')\<close>.\<close>

definition toHex :: "rgb \<Rightarrow> string" where
  "toHex v = CHR ''#'' # padStart (toString16 (r v)) 2 CHR ''0''
                       @ padStart (toString16 (g v)) 2 CHR ''0''
                       @ padStart (toString16 (b v)) 2 CHR ''0''"

definition hslToHex :: "rat \<Rightarrow> rat \<Rightarrow> rat \<Rightarrow> string" where
  "hslToHex h0 s0 l0 = toHex (HSL_TO_RGB_convert h0 s0 l0)"

text \<open>The reading direction of the hexadecimal form is not part of the script. It is the
  specification's conceptual decoder: a marker and three two-digit lowercase channels.\<close>

fun spec_hexValue :: "char \<Rightarrow> string \<Rightarrow> nat option" where
  "spec_hexValue c [] = None"
| "spec_hexValue c (d # ds) =
     (if c = d then Some 0 else map_option Suc (spec_hexValue c ds))"

definition spec_hexChannel :: "char \<Rightarrow> char \<Rightarrow> int option" where
  "spec_hexChannel hi lo =
     (case (spec_hexValue hi hexDigits, spec_hexValue lo hexDigits) of
        (Some a, Some c) \<Rightarrow> Some (int (16 * a + c))
      | _ \<Rightarrow> None)"

definition spec_hexToRgb :: "string \<Rightarrow> rgb option" where
  "spec_hexToRgb str =
     (case str of
        [mk, r1, r2, g1, g2, b1, b2] \<Rightarrow>
          (if mk = CHR ''#'' then
             (case (spec_hexChannel r1 r2, spec_hexChannel g1 g2, spec_hexChannel b1 b2) of
                (Some rv, Some gv, Some bv) \<Rightarrow> Some \<lparr>r = rv, g = gv, b = bv\<rparr>
              | _ \<Rightarrow> None)
           else None)
      | _ \<Rightarrow> None)"

definition isHexDigit :: "char \<Rightarrow> bool" where
  "isHexDigit c = (c \<in> set hexDigits)"

subsection \<open>ColorPaletteGenerator\<close>

text \<open>A colour held in the palette is an object: the set of used colours and the filter of
  \<^verbatim>\<open>getNextColor\<close> compare object identities, not field values. The objects are never
  mutated, so the identity is carried as a field \<open>oid\<close>, and equality of the record is
  equality of objects. \<^verbatim>\<open>generateBaseColors\<close> allocates one fresh object per
  iteration, numbered here in allocation order.\<close>

record color_obj = color +
  oid :: nat

function generateBaseColors_loop ::
  "nat \<Rightarrow> rat \<Rightarrow> nat \<Rightarrow> color_obj list \<Rightarrow> color_obj list" where
  "generateBaseColors_loop count hueStep i colors =
     (if i < count then
        generateBaseColors_loop count hueStep (i + 1)
          (colors @ [\<lparr>h = of_nat i * hueStep, s = 70, l = 50, oid = i\<rparr>])
      else colors)"
  by pat_completeness auto
termination
  by (relation "measure (\<lambda>(count, hueStep, i, colors). count - i)") auto

definition generateBaseColors :: "nat \<Rightarrow> color_obj list" where
  "generateBaseColors count =
     (let colors = []; hueStep = 360 / of_nat count
      in generateBaseColors_loop count hueStep 0 colors)"

subsection \<open>ColorAdjuster\<close>

text \<open>\<^verbatim>\<open>detectDarkMode\<close> queries the document; its answer is the parameter
  \<open>isDarkMode\<close>. The spread copy takes the hue over, lightness and saturation are
  overwritten; the copy is a plain value, it is never put into the set of used colours.\<close>

definition adjustColor :: "bool \<Rightarrow> color_obj \<Rightarrow> int \<Rightarrow> color" where
  "adjustColor isDarkMode baseColor d =
     (let baseLightness = (if isDarkMode then 65 else 35);
          depthAdjustment = js_rem d 3 * (if isDarkMode then - 5 else 5);
          adjusted_l = baseLightness + depthAdjustment;
          adjusted_s = max 40 (s baseColor - of_int (\<lfloor>(of_int d :: rat) / 3\<rfloor> * 10))
      in \<lparr>h = h baseColor, s = adjusted_s, l = of_int adjusted_l\<rparr>)"

section \<open>RainbowDelimiters\<close>

subsection \<open>The object and its scan state\<close>

definition delimiter_pairs :: "(char \<times> char) list" where
  "delimiter_pairs = [(CHR ''('', CHR '')''), (CHR ''['', CHR '']''), (CHR ''{'', CHR ''}'')]"

text \<open>The constructor fills \<^verbatim>\<open>this.baseColors\<close> with the default palette of 32.\<close>

definition constructor_baseColors :: "color_obj list" where
  "constructor_baseColors = generateBaseColors 32"

definition isOpening :: "char \<Rightarrow> bool" where
  "isOpening ch = (ch \<in> set (map fst delimiter_pairs))"

definition isClosing :: "char \<Rightarrow> bool" where
  "isClosing ch = (ch \<in> set (map snd delimiter_pairs))"

datatype error = TypeError

text \<open>A decoration is what one pass through the body of the loop writes: the position
  and character of the delimiter, the palette colour chosen for it, the depth handed to
  the adjuster and the hexadecimal colour of the span. The list \<open>emitted\<close> of the scan
  state is a history variable: the script does not hold it, it records the spans in the
  order in which they are appended to \<^verbatim>\<open>result\<close>.\<close>

record decoration =
  position :: nat
  delimiter :: char
  baseColor :: color_obj
  adjustDepth :: int
  hexColor :: string

record scan_state =
  result :: string
  lastIndex :: nat
  depth :: int
  colorStack :: "color_obj list"
  usedColors :: "color_obj set"
  emitted :: "decoration list"

definition initial_state :: scan_state where
  "initial_state = \<lparr>result = [], lastIndex = 0, depth = 0, colorStack = [],
                     usedColors = {}, emitted = []\<rparr>"

subsection \<open>getNextColor\<close>

text \<open>The closure reads \<^verbatim>\<open>this.baseColors\<close> and updates \<^verbatim>\<open>usedColors\<close>; it returns
  the colour (\<open>None\<close> for \<^verbatim>\<open>undefined\<close>) and the new set. \<^verbatim>\<open>depth % 0\<close> is NaN and
  reading an array at NaN gives \<^verbatim>\<open>undefined\<close>. Where the second branch reads
  \<^verbatim>\<open>undefined\<close>, the script adds \<^verbatim>\<open>undefined\<close> to the set; that is no colour object,
  so the set of colour objects is left as it is.\<close>

definition getNextColor ::
  "color_obj list \<Rightarrow> color_obj set \<Rightarrow> int \<Rightarrow> color_obj option \<times> color_obj set" where
  "getNextColor baseColors used d =
     (let availableColors = filter (\<lambda>c. c \<notin> used) baseColors
      in if length availableColors = 0 then
           (if length baseColors = 0 then None
            else array_get baseColors (js_rem d (int (length baseColors))), {})
         else
           (let color = array_get availableColors (js_rem d (int (length availableColors)))
            in (color, (case color of None \<Rightarrow> used | Some c \<Rightarrow> insert c used))))"

subsection \<open>processText\<close>

definition pop :: "'a list \<Rightarrow> 'a option \<times> 'a list" where
  "pop xs = (if xs = [] then (None, []) else (Some (last xs), butlast xs))"

definition span_open :: string where
  \<open>span_open = ''<span style="color: ''\<close>

definition span_mid :: string where
  \<open>span_mid = ''">''\<close>

definition span_close :: string where
  "span_close = ''</span>''"

definition span_markup :: "string \<Rightarrow> char \<Rightarrow> string" where
  "span_markup hex ch = span_open @ hex @ span_mid @ [ch] @ span_close"

text \<open>One pass through the body of the \<^verbatim>\<open>for\<close> loop, at index \<open>i\<close>. Reading a field of
  \<^verbatim>\<open>undefined\<close> in \<^verbatim>\<open>adjustColor\<close> throws a TypeError.\<close>

definition loop_body ::
  "bool \<Rightarrow> color_obj list \<Rightarrow> string \<Rightarrow> nat \<Rightarrow> scan_state \<Rightarrow> error + scan_state" where
  "loop_body isDarkMode baseColors text i st =
     (let ch = text ! i in
      if isOpening ch \<or> isClosing ch then
        (let result1 = result st @ substring text (lastIndex st) i;
             (picked, stack1, used1) =
               (if isOpening ch then
                  (let (c, u) = getNextColor baseColors (usedColors st) (depth st)
                   in (c, colorStack st, u))
                else
                  (case pop (colorStack st) of
                     (Some c, stk) \<Rightarrow> (Some c, stk, usedColors st)
                   | (None, stk) \<Rightarrow>
                       (let (c, u) = getNextColor baseColors (usedColors st) (depth st)
                        in (c, stk, u))))
         in case picked of
              None \<Rightarrow> Inl TypeError
            | Some bc \<Rightarrow>
               (let adjustedColor = adjustColor isDarkMode bc (depth st);
                    hex = hslToHex (h adjustedColor) (s adjustedColor) (l adjustedColor);
                    result2 = result1 @ span_markup hex ch;
                    deco = \<lparr>position = i, delimiter = ch, baseColor = bc,
                            adjustDepth = depth st, hexColor = hex\<rparr>
                in if isOpening ch then
                     Inr \<lparr>result = result2, lastIndex = i + 1, depth = depth st + 1,
                          colorStack = stack1 @ [bc], usedColors = used1,
                          emitted = emitted st @ [deco]\<rparr>
                   else
                     Inr \<lparr>result = result2, lastIndex = i + 1, depth = max 0 (depth st - 1),
                          colorStack = stack1, usedColors = used1,
                          emitted = emitted st @ [deco]\<rparr>))
      else Inr st)"

text \<open>The loop: \<open>for_loop \<dots> st i k\<close> runs the \<open>k\<close> passes at the indices
  \<open>i, i + 1, \<dots>, i + k - 1\<close> from the state \<open>st\<close> and stops at the first error.\<close>

primrec for_loop ::
  "bool \<Rightarrow> color_obj list \<Rightarrow> string \<Rightarrow> scan_state \<Rightarrow> nat \<Rightarrow> nat \<Rightarrow> error + scan_state" where
  "for_loop isDarkMode baseColors text st i 0 = Inr st"
| "for_loop isDarkMode baseColors text st i (Suc k) =
     (case for_loop isDarkMode baseColors text st i k of
        Inl e \<Rightarrow> Inl e
      | Inr st' \<Rightarrow> loop_body isDarkMode baseColors text (i + k) st')"

definition scan :: "bool \<Rightarrow> color_obj list \<Rightarrow> string \<Rightarrow> nat \<Rightarrow> error + scan_state" where
  "scan isDarkMode baseColors text k = for_loop isDarkMode baseColors text initial_state 0 k"

definition processText :: "bool \<Rightarrow> color_obj list \<Rightarrow> string \<Rightarrow> error + string" where
  "processText isDarkMode baseColors text =
     (case scan isDarkMode baseColors text (length text) of
        Inl e \<Rightarrow> Inl e
      | Inr st \<Rightarrow> Inr (result st @ substring text (lastIndex st) (length text)))"

section \<open>Notions of the specification\<close>

text \<open>The ranges the data model gives a colour, for every entry of a palette.\<close>

definition valid_color :: "color_obj \<Rightarrow> bool" where
  "valid_color c = (0 \<le> h c \<and> h c < 360 \<and> 0 \<le> s c \<and> s c \<le> 100 \<and> 0 \<le> l c \<and> l c \<le> 100)"

definition valid_palette :: "color_obj list \<Rightarrow> bool" where
  "valid_palette baseColors = (baseColors \<noteq> [] \<and> list_all valid_color baseColors)"

text \<open>Stripping the colour markup: every span that wraps one delimiter character in a
  hexadecimal colour, as written by \<^verbatim>\<open>processText\<close>, is replaced by the character it
  wraps; everything else is kept. The text is read from the left.\<close>

definition spec_wrapper_at :: "string \<Rightarrow> bool" where
  "spec_wrapper_at str =
     (37 \<le> length str \<and> take 20 str = span_open \<and> str ! 20 = CHR ''#''
      \<and> list_all isHexDigit (take 6 (drop 21 str)) \<and> take 2 (drop 27 str) = span_mid
      \<and> (isOpening (str ! 29) \<or> isClosing (str ! 29)) \<and> take 7 (drop 30 str) = span_close)"

function spec_strip_markup :: "string \<Rightarrow> string" where
  "spec_strip_markup [] = []"
| "spec_strip_markup (c # cs) =
     (if spec_wrapper_at (c # cs) then (c # cs) ! 29 # spec_strip_markup (drop 37 (c # cs))
      else c # spec_strip_markup cs)"
  by pat_completeness auto
termination
  by (relation "measure length") auto

text \<open>A correctly nested delimiter sequence: every closing delimiter is the partner of the
  last opening delimiter still open, and none is left open at the end. Other characters
  are skipped. \<open>expect\<close> holds the closing characters still owed, the innermost first.\<close>

fun spec_nested :: "char list \<Rightarrow> string \<Rightarrow> bool" where
  "spec_nested expect [] = (expect = [])"
| "spec_nested expect (ch # rest) =
     (case map_of delimiter_pairs ch of
        Some cl \<Rightarrow> spec_nested (cl # expect) rest
      | None \<Rightarrow>
          if isClosing ch then
            (case expect of [] \<Rightarrow> False | e # es \<Rightarrow> ch = e \<and> spec_nested es rest)
          else spec_nested expect rest)"

definition spec_correctly_nested :: "string \<Rightarrow> bool" where
  "spec_correctly_nested text = spec_nested [] text"

section \<open>Notions used in the proofs\<close>

text \<open>The colour written for a base colour at a depth (the adjuster, then the
  hexadecimal form), the decoration of one pass, and the agreement of depth and stack
  that every pass keeps.\<close>

definition paint :: "bool \<Rightarrow> color_obj \<Rightarrow> int \<Rightarrow> string" where
  "paint isDarkMode bc d =
     (let adjustedColor = adjustColor isDarkMode bc d
      in hslToHex (h adjustedColor) (s adjustedColor) (l adjustedColor))"

definition decorated :: "bool \<Rightarrow> string \<Rightarrow> nat \<Rightarrow> color_obj \<Rightarrow> scan_state \<Rightarrow> decoration" where
  "decorated isDarkMode text i bc st =
     \<lparr>position = i, delimiter = text ! i, baseColor = bc, adjustDepth = depth st,
      hexColor = paint isDarkMode bc (depth st)\<rparr>"

definition synced :: "color_obj list \<Rightarrow> scan_state \<Rightarrow> bool" where
  "synced pal st = (depth st = int (length (colorStack st)) \<and> set (colorStack st) \<subseteq> set pal)"

text \<open>The decoration written for the character at a position, and the results of \<open>n\<close>
  calls of \<^verbatim>\<open>getNextColor\<close> in a row at one depth, with the set of used colours they
  leave.\<close>

definition decoration_at :: "decoration list \<Rightarrow> nat \<Rightarrow> decoration option" where
  "decoration_at decos p = find (\<lambda>d. position d = p) decos"

primrec repeated_getNextColor ::
  "color_obj list \<Rightarrow> color_obj set \<Rightarrow> int \<Rightarrow> nat \<Rightarrow> color_obj option list \<times> color_obj set" where
  "repeated_getNextColor baseColors used d 0 = ([], used)"
| "repeated_getNextColor baseColors used d (Suc n) =
     (case repeated_getNextColor baseColors used d n of
        (cs, u) \<Rightarrow> (case getNextColor baseColors u d of (c, u') \<Rightarrow> (cs @ [c], u')))"

text \<open>The text written and the index after the last span, computed again from the list of
  decorations alone: the history variable determines what the script holds in
  \<^verbatim>\<open>result\<close> and \<^verbatim>\<open>lastIndex\<close>.\<close>

definition replay :: "string \<Rightarrow> decoration list \<Rightarrow> string \<times> nat" where
  "replay text decos =
     foldl (\<lambda>(res, li) d. (res @ substring text li (position d)
                                @ span_markup (hexColor d) (delimiter d), position d + 1))
       ([], 0) decos"

text \<open>The depth that was handed to the adjuster for the character at a position of a
  finished run.\<close>

definition depth_used_at :: "error + scan_state \<Rightarrow> nat \<Rightarrow> int option" where
  "depth_used_at run p =
     (case run of
        Inl e \<Rightarrow> None
      | Inr st \<Rightarrow> map_option adjustDepth (decoration_at (emitted st) p))"

text \<open>What the scan writes for a text, as a relation: a character that is no delimiter
  is copied, a delimiter is wrapped in a span with a well-formed hexadecimal colour.
  \<open>lead\<close> counts the characters before the first delimiter.\<close>

definition plain :: "char \<Rightarrow> bool" where
  "plain ch = (\<not> isOpening ch \<and> \<not> isClosing ch)"

definition wf_hex :: "string \<Rightarrow> bool" where
  "wf_hex hex = (length hex = 7 \<and> hd hex = CHR ''#'' \<and> list_all isHexDigit (tl hex))"

inductive rendering :: "string \<Rightarrow> string \<Rightarrow> bool" where
  rendering_Nil: "rendering [] []"
| rendering_plain: "plain c \<Longrightarrow> rendering t out \<Longrightarrow> rendering (c # t) (c # out)"
| rendering_span: "\<not> plain c \<Longrightarrow> wf_hex hex \<Longrightarrow> rendering t out \<Longrightarrow>
     rendering (c # t) (span_markup hex c @ out)"

definition lead :: "string \<Rightarrow> nat" where
  "lead str = length (takeWhile plain str)"

section \<open>Proofs: the colour utilities\<close>

declare digits16.simps [simp del]
declare generateBaseColors_loop.simps [simp del]

lemma js_fmod_range:
  assumes "0 \<le> a"
  shows "0 \<le> js_fmod a 2 \<and> js_fmod a 2 < 2"
proof -
  have t: "js_trunc (a / 2) = \<lfloor>a / 2\<rfloor>" using assms by (simp add: js_trunc_def)
  have "of_int \<lfloor>a / 2\<rfloor> \<le> a / 2" "a / 2 < of_int \<lfloor>a / 2\<rfloor> + 1"
    by linarith+
  then show ?thesis unfolding js_fmod_def t by linarith
qed

lemma chroma_bounds:
  fixes s1 l1 :: rat
  assumes "0 \<le> s1" "s1 \<le> 1" "0 \<le> l1" "l1 \<le> 1"
  shows "0 \<le> (1 - \<bar>2 * l1 - 1\<bar>) * s1" and "(1 - \<bar>2 * l1 - 1\<bar>) * s1 \<le> 1 - \<bar>2 * l1 - 1\<bar>"
proof -
  have k: "0 \<le> 1 - \<bar>2 * l1 - 1\<bar>" using assms by linarith
  show "0 \<le> (1 - \<bar>2 * l1 - 1\<bar>) * s1" using k assms by simp
  show "(1 - \<bar>2 * l1 - 1\<bar>) * s1 \<le> 1 - \<bar>2 * l1 - 1\<bar>"
    using mult_left_mono [OF assms(2) k] by simp
qed

lemma secondary_bounds:
  fixes c f :: rat
  assumes "0 \<le> c" "0 \<le> f" "f < 2"
  shows "0 \<le> c * (1 - \<bar>f - 1\<bar>)" and "c * (1 - \<bar>f - 1\<bar>) \<le> c"
proof -
  have k: "0 \<le> 1 - \<bar>f - 1\<bar>" "1 - \<bar>f - 1\<bar> \<le> 1" using assms by linarith+
  show "0 \<le> c * (1 - \<bar>f - 1\<bar>)" using k assms by simp
  show "c * (1 - \<bar>f - 1\<bar>) \<le> c" using mult_left_mono [OF k(2) assms(1)] by simp
qed

lemma Math_round_channel:
  fixes v :: rat
  assumes "0 \<le> v" "v \<le> 1"
  shows "0 \<le> Math_round (v * 255) \<and> Math_round (v * 255) \<le> 255"
proof -
  have "0 \<le> v * 255 + 1 / 2" using assms by simp
  then have lo: "0 \<le> \<lfloor>v * 255 + 1 / 2\<rfloor>" by simp
  have "v * 255 + 1 / 2 < 256" using assms by simp
  then have "\<lfloor>v * 255 + 1 / 2\<rfloor> < 256" by (simp add: floor_less_iff)
  with lo show ?thesis by (simp add: Math_round_def)
qed

lemma convert_channels:
  assumes "0 \<le> h0" "0 \<le> s0" "s0 \<le> 100" "0 \<le> l0" "l0 \<le> 100"
  shows "0 \<le> r (HSL_TO_RGB_convert h0 s0 l0) \<and> r (HSL_TO_RGB_convert h0 s0 l0) \<le> 255"
    and "0 \<le> g (HSL_TO_RGB_convert h0 s0 l0) \<and> g (HSL_TO_RGB_convert h0 s0 l0) \<le> 255"
    and "0 \<le> b (HSL_TO_RGB_convert h0 s0 l0) \<and> b (HSL_TO_RGB_convert h0 s0 l0) \<le> 255"
proof -
  define s1 where "s1 = s0 / 100"
  define l1 where "l1 = l0 / 100"
  define c where "c = (1 - \<bar>2 * l1 - 1\<bar>) * s1"
  define x where "x = c * (1 - \<bar>js_fmod (h0 / 60) 2 - 1\<bar>)"
  define m where "m = l1 - c / 2"
  have sl: "0 \<le> s1" "s1 \<le> 1" "0 \<le> l1" "l1 \<le> 1"
    using assms by (simp_all add: s1_def l1_def)
  have c: "0 \<le> c" "c \<le> 1 - \<bar>2 * l1 - 1\<bar>"
    unfolding c_def using chroma_bounds [OF sl] by simp_all
  have f: "0 \<le> js_fmod (h0 / 60) 2 \<and> js_fmod (h0 / 60) 2 < 2"
    using assms(1) by (intro js_fmod_range) simp
  have x: "0 \<le> x" "x \<le> c"
    unfolding x_def using secondary_bounds [OF c(1)] f by simp_all
  have m: "0 \<le> m" "c + m \<le> 1"
    unfolding m_def using c sl by linarith+
  have ch: "0 \<le> c + m \<and> c + m \<le> 1" "0 \<le> x + m \<and> x + m \<le> 1" "0 \<le> 0 + m \<and> 0 + m \<le> 1"
    using c x m by linarith+
  note rc = Math_round_channel
  show "0 \<le> r (HSL_TO_RGB_convert h0 s0 l0) \<and> r (HSL_TO_RGB_convert h0 s0 l0) \<le> 255"
    using ch rc [of "c + m"] rc [of "x + m"] rc [of "0 + m"]
    by (simp add: HSL_TO_RGB_convert_def Let_def s1_def [symmetric] l1_def [symmetric]
        c_def [symmetric] x_def [symmetric] m_def [symmetric] del: add_0 distrib_right_numeral distrib_left_numeral)
  show "0 \<le> g (HSL_TO_RGB_convert h0 s0 l0) \<and> g (HSL_TO_RGB_convert h0 s0 l0) \<le> 255"
    using ch rc [of "c + m"] rc [of "x + m"] rc [of "0 + m"]
    by (simp add: HSL_TO_RGB_convert_def Let_def s1_def [symmetric] l1_def [symmetric]
        c_def [symmetric] x_def [symmetric] m_def [symmetric] del: add_0 distrib_right_numeral distrib_left_numeral)
  show "0 \<le> b (HSL_TO_RGB_convert h0 s0 l0) \<and> b (HSL_TO_RGB_convert h0 s0 l0) \<le> 255"
    using ch rc [of "c + m"] rc [of "x + m"] rc [of "0 + m"]
    by (simp add: HSL_TO_RGB_convert_def Let_def s1_def [symmetric] l1_def [symmetric]
        c_def [symmetric] x_def [symmetric] m_def [symmetric] del: add_0 distrib_right_numeral distrib_left_numeral)
qed

lemma hexDigits_value:
  "\<forall>d \<in> set [0..<16]. spec_hexValue (hexDigits ! d) hexDigits = Some d \<and> isHexDigit (hexDigits ! d)"
  by code_simp

lemma hexDigit_nth:
  assumes "d < 16"
  shows "spec_hexValue (hexDigits ! d) hexDigits = Some d" and "isHexDigit (hexDigits ! d)"
  using hexDigits_value assms by auto

lemma padStart_toString16:
  assumes "0 \<le> n" "n \<le> 255"
  shows "padStart (toString16 n) 2 CHR ''0'' = [hexDigits ! (nat n div 16), hexDigits ! (nat n mod 16)]"
proof (cases "nat n < 16")
  case True
  then have "digits16 (nat n) = [hexDigits ! nat n]" by (simp add: digits16.simps)
  moreover have "hexDigits ! 0 = CHR ''0''" by (simp add: hexDigits_def)
  ultimately show ?thesis using True assms
    by (simp add: padStart_def toString16_def)
next
  case False
  have "nat n div 16 < 16" using assms by simp
  then have "digits16 (nat n div 16) = [hexDigits ! (nat n div 16)]"
    by (simp add: digits16.simps)
  then have "digits16 (nat n) = [hexDigits ! (nat n div 16), hexDigits ! (nat n mod 16)]"
    using False by (subst digits16.simps) simp
  then show ?thesis using assms by (simp add: padStart_def toString16_def)
qed

lemma spec_hexChannel_padStart:
  assumes "0 \<le> n" "n \<le> 255"
  shows "spec_hexChannel (hexDigits ! (nat n div 16)) (hexDigits ! (nat n mod 16)) = Some n"
proof -
  have "nat n div 16 < 16" "nat n mod 16 < 16" using assms by simp_all
  then show ?thesis using assms
    by (simp add: spec_hexChannel_def hexDigit_nth)
qed

lemma toHex_channels:
  assumes "0 \<le> r v \<and> r v \<le> 255" "0 \<le> g v \<and> g v \<le> 255" "0 \<le> b v \<and> b v \<le> 255"
  shows "length (toHex v) = 7" and "hd (toHex v) = CHR ''#''"
    and "\<forall>c \<in> set (tl (toHex v)). isHexDigit c"
    and "spec_hexToRgb (toHex v) = Some v"
proof -
  have e: "toHex v = [CHR ''#'', hexDigits ! (nat (r v) div 16), hexDigits ! (nat (r v) mod 16),
       hexDigits ! (nat (g v) div 16), hexDigits ! (nat (g v) mod 16),
       hexDigits ! (nat (b v) div 16), hexDigits ! (nat (b v) mod 16)]"
    using assms by (simp add: toHex_def padStart_toString16)
  have d: "nat (r v) div 16 < 16" "nat (r v) mod 16 < 16" "nat (g v) div 16 < 16"
    "nat (g v) mod 16 < 16" "nat (b v) div 16 < 16" "nat (b v) mod 16 < 16"
    using assms by arith+
  show "length (toHex v) = 7" by (simp add: e)
  show "hd (toHex v) = CHR ''#''" by (simp add: e)
  show "\<forall>c \<in> set (tl (toHex v)). isHexDigit c"
    using d by (simp add: e hexDigit_nth)
  show "spec_hexToRgb (toHex v) = Some v"
    using assms by (simp add: e spec_hexToRgb_def spec_hexChannel_padStart)
qed

text \<open>C9: for a hue in [0, 360) and saturation and lightness in [0, 100], the hexadecimal
  form of the converted colour has exactly 7 characters, the marker and 6 lowercase
  hexadecimal digits (each channel padded to two), and reading it back gives the same
  integer channels that the conversion produced.\<close>

theorem hslToHex_roundtrip:
  assumes "0 \<le> h0" "h0 < 360" "0 \<le> s0" "s0 \<le> 100" "0 \<le> l0" "l0 \<le> 100"
  shows "length (toHex (HSL_TO_RGB_convert h0 s0 l0)) = 7
       \<and> hd (toHex (HSL_TO_RGB_convert h0 s0 l0)) = CHR ''#''
       \<and> (\<forall>c \<in> set (tl (toHex (HSL_TO_RGB_convert h0 s0 l0))). isHexDigit c)
       \<and> spec_hexToRgb (toHex (HSL_TO_RGB_convert h0 s0 l0)) = Some (HSL_TO_RGB_convert h0 s0 l0)
       \<and> hslToHex h0 s0 l0 = toHex (HSL_TO_RGB_convert h0 s0 l0)"
  using toHex_channels [OF convert_channels [OF assms(1,3,4,5,6)]]
  by (simp add: hslToHex_def)

theorem hslToHex_roundtrip_witness:
  "toHex (HSL_TO_RGB_convert 0 70 35) = ''#981b1b''
   \<and> spec_hexToRgb ''#981b1b'' = Some (HSL_TO_RGB_convert 0 70 35)"
proof -
  have e: "toHex (HSL_TO_RGB_convert 0 70 35) = ''#981b1b''" by code_simp
  show ?thesis using hslToHex_roundtrip [of 0 70 35] by (simp add: e)
qed

lemma js_rem_nonneg: "0 \<le> a \<Longrightarrow> 0 < n \<Longrightarrow> js_rem a n = a mod n"
  by (cases "a = 0") (simp_all add: js_rem_def)

lemma generateBaseColors_loop_eq:
  "i \<le> count \<Longrightarrow>
   generateBaseColors_loop count hueStep i colors =
     colors @ map (\<lambda>j. \<lparr>h = of_nat j * hueStep, s = 70, l = 50, oid = j\<rparr>) [i..<count]"
proof (induction count hueStep i colors rule: generateBaseColors_loop.induct)
  case (1 count hueStep i colors)
  show ?case
  proof (cases "i < count")
    case True
    then have "generateBaseColors_loop count hueStep i colors =
        generateBaseColors_loop count hueStep (i + 1)
          (colors @ [\<lparr>h = of_nat i * hueStep, s = 70, l = 50, oid = i\<rparr>])"
      by (subst generateBaseColors_loop.simps) simp
    also have "\<dots> = (colors @ [\<lparr>h = of_nat i * hueStep, s = 70, l = 50, oid = i\<rparr>])
        @ map (\<lambda>j. \<lparr>h = of_nat j * hueStep, s = 70, l = 50, oid = j\<rparr>) [i + 1..<count]"
      using True by (intro "1.IH") simp_all
    also have "\<dots> = colors @ map (\<lambda>j. \<lparr>h = of_nat j * hueStep, s = 70, l = 50, oid = j\<rparr>) [i..<count]"
      using True by (simp add: upt_conv_Cons)
    finally show ?thesis .
  next
    case False
    with "1.prems" have "i = count" by simp
    then show ?thesis by (subst generateBaseColors_loop.simps) simp
  qed
qed

lemma generateBaseColors_eq:
  "generateBaseColors count =
     map (\<lambda>j. \<lparr>h = of_nat j * (360 / of_nat count), s = 70, l = 50, oid = j\<rparr>) [0..<count]"
  by (simp add: generateBaseColors_def generateBaseColors_loop_eq)

text \<open>C8: for every count above zero the palette has exactly count colours, and the colour
  at index i has hue i * (360 / count), saturation 70 and lightness 50. The palette is a
  function of count alone, so the order is fixed.\<close>

theorem generateBaseColors_spaced:
  assumes "0 < count"
  shows "length (generateBaseColors count) = count
       \<and> (\<forall>i < count. h (generateBaseColors count ! i) = of_nat i * (360 / of_nat count)
                     \<and> s (generateBaseColors count ! i) = 70
                     \<and> l (generateBaseColors count ! i) = 50)"
  by (simp add: generateBaseColors_eq)

theorem generateBaseColors_spaced_witness:
  "length (generateBaseColors 32) = 32
   \<and> h (generateBaseColors 32 ! 3) = 135 / 4
   \<and> s (generateBaseColors 32 ! 3) = 70 \<and> l (generateBaseColors 32 ! 3) = 50"
  using generateBaseColors_spaced [of 32] by simp

lemma floor_third: "\<lfloor>(of_int d :: rat) / 3\<rfloor> = d div 3"
  using floor_divide_of_int_eq [of d 3, where ?'a = rat] by simp

text \<open>C6: the adjusted colour keeps the hue, has lightness 35 (light) or 65 (dark) plus
  (depth mod 3) times +5 (light) or -5 (dark), and the base saturation less 10 for every
  three full levels of depth, not below 40.\<close>

theorem adjustColor_depth:
  assumes "0 \<le> d"
  shows "h (adjustColor isDarkMode bc d) = h bc
       \<and> l (adjustColor isDarkMode bc d)
           = (if isDarkMode then 65 else 35) + of_int (d mod 3) * (if isDarkMode then - 5 else 5)
       \<and> s (adjustColor isDarkMode bc d) = max 40 (s bc - 10 * of_int (d div 3))"
  using assms by (simp add: adjustColor_def Let_def js_rem_nonneg floor_third mult.commute)

theorem adjustColor_depth_witness:
  "l (adjustColor False \<lparr>h = 0, s = 70, l = 50, oid = 0\<rparr> 7) = 40
   \<and> l (adjustColor True \<lparr>h = 0, s = 70, l = 50, oid = 0\<rparr> 7) = 60
   \<and> s (adjustColor False \<lparr>h = 0, s = 70, l = 50, oid = 0\<rparr> 7) = 50
   \<and> s (adjustColor False \<lparr>h = 0, s = 70, l = 50, oid = 0\<rparr> 12) = 40"
  using adjustColor_depth [of 7 False "\<lparr>h = 0, s = 70, l = 50, oid = 0\<rparr>"]
    adjustColor_depth [of 7 True "\<lparr>h = 0, s = 70, l = 50, oid = 0\<rparr>"]
    adjustColor_depth [of 12 False "\<lparr>h = 0, s = 70, l = 50, oid = 0\<rparr>"]
  by simp

lemma array_get_rem:
  assumes "xs \<noteq> []" "0 \<le> d"
  shows "array_get xs (js_rem d (int (length xs))) = Some (xs ! (nat d mod length xs))"
proof -
  have n: "0 < int (length xs)" using assms by simp
  have e: "js_rem d (int (length xs)) = d mod int (length xs)"
    using assms n by (simp add: js_rem_nonneg)
  have "nat (d mod int (length xs)) = nat d mod length xs"
    using assms by (simp add: nat_mod_distrib)
  moreover have "0 \<le> d mod int (length xs)" "d mod int (length xs) < int (length xs)"
    using n by simp_all
  ultimately show ?thesis unfolding e array_get_def by simp
qed

lemma getNextColor_eq:
  assumes "0 \<le> d" "pal \<noteq> []"
  shows "filter (\<lambda>c. c \<notin> used) pal \<noteq> [] \<Longrightarrow>
            getNextColor pal used d =
              (Some (filter (\<lambda>c. c \<notin> used) pal ! (nat d mod length (filter (\<lambda>c. c \<notin> used) pal))),
               insert (filter (\<lambda>c. c \<notin> used) pal
                       ! (nat d mod length (filter (\<lambda>c. c \<notin> used) pal))) used)"
    and "filter (\<lambda>c. c \<notin> used) pal = [] \<Longrightarrow>
            getNextColor pal used d = (Some (pal ! (nat d mod length pal)), {})"
  using assms by (simp_all add: getNextColor_def Let_def array_get_rem)

text \<open>C2: getNextColor filters the palette to the colours not yet used. If some are left
  it returns the one at index depth mod (number left) and adds it to the used set; if none
  is left it clears the used set and returns the palette entry at index
  depth mod (palette length), which it does not add.\<close>

theorem getNextColor_policy:
  assumes "0 \<le> d" "baseColors \<noteq> []"
  shows "(filter (\<lambda>c. c \<notin> used) baseColors \<noteq> [] \<longrightarrow>
            getNextColor baseColors used d =
              (Some (filter (\<lambda>c. c \<notin> used) baseColors
                       ! (nat d mod length (filter (\<lambda>c. c \<notin> used) baseColors))),
               insert (filter (\<lambda>c. c \<notin> used) baseColors
                       ! (nat d mod length (filter (\<lambda>c. c \<notin> used) baseColors))) used))
       \<and> (filter (\<lambda>c. c \<notin> used) baseColors = [] \<longrightarrow>
            getNextColor baseColors used d
              = (Some (baseColors ! (nat d mod length baseColors)), {}))"
  using getNextColor_eq [OF assms] by simp

lemma palette_two:
  "generateBaseColors 2 = [\<lparr>h = 0, s = 70, l = 50, oid = 0\<rparr>, \<lparr>h = 180, s = 70, l = 50, oid = 1\<rparr>]"
  by code_simp

theorem getNextColor_policy_witness:
  "getNextColor (generateBaseColors 2) {} 3
     = (Some (generateBaseColors 2 ! 1), {generateBaseColors 2 ! 1})
   \<and> getNextColor (generateBaseColors 2) {generateBaseColors 2 ! 0} 3
     = (Some (generateBaseColors 2 ! 1), {generateBaseColors 2 ! 1, generateBaseColors 2 ! 0})
   \<and> getNextColor (generateBaseColors 2) (set (generateBaseColors 2)) 3
     = (Some (generateBaseColors 2 ! 1), {})"
proof -
  have m: "(3::nat) mod Suc (Suc 0) = Suc 0" by presburger
  show ?thesis
    using getNextColor_policy [of 3 "generateBaseColors 2" "{}"]
      getNextColor_policy [of 3 "generateBaseColors 2" "{generateBaseColors 2 ! 0}"]
      getNextColor_policy [of 3 "generateBaseColors 2" "set (generateBaseColors 2)"]
    by (simp add: palette_two m)
qed

section \<open>Proofs: the scan\<close>

lemma substring_mid:
  "a \<le> c \<Longrightarrow> c \<le> length str \<Longrightarrow> substring str a c = take (c - a) (drop a str)"
  by (simp add: substring_def Let_def min_def max_def)

lemma substring_end: "substring str a (length str) = drop a str"
  by (simp add: substring_def Let_def min_def max_def)

lemma closing_not_opening: "isClosing ch \<Longrightarrow> \<not> isOpening ch"
  by (auto simp: isClosing_def isOpening_def delimiter_pairs_def)

lemma getNextColor_some:
  assumes "0 \<le> d" "pal \<noteq> []"
  shows "\<exists>c u. getNextColor pal used d = (Some c, u) \<and> c \<in> set pal"
proof (cases "filter (\<lambda>c. c \<notin> used) pal = []")
  case True
  have "pal ! (nat d mod length pal) \<in> set pal" using assms by simp
  then show ?thesis using getNextColor_eq(2) [OF assms True] by simp
next
  case False
  let ?av = "filter (\<lambda>c. c \<notin> used) pal"
  have "nat d mod length ?av < length ?av" using False by simp
  then have "?av ! (nat d mod length ?av) \<in> set ?av" by (rule nth_mem)
  then have "?av ! (nat d mod length ?av) \<in> set pal"
    using filter_is_subset [of "\<lambda>c. c \<notin> used" pal] by blast
  then show ?thesis using getNextColor_eq(1) [OF assms False] by blast
qed

lemma loop_body_other:
  "\<not> isOpening (inp ! i) \<Longrightarrow> \<not> isClosing (inp ! i) \<Longrightarrow>
   loop_body dark pal inp i st = Inr st"
  by (simp add: loop_body_def)

lemma loop_body_open:
  assumes "isOpening (inp ! i)" "getNextColor pal (usedColors st) (depth st) = (Some bc, u)"
  shows "loop_body dark pal inp i st =
     Inr \<lparr>result = result st @ substring inp (lastIndex st) i
                     @ span_markup (paint dark bc (depth st)) (inp ! i),
          lastIndex = i + 1, depth = depth st + 1,
          colorStack = colorStack st @ [bc], usedColors = u,
          emitted = emitted st @ [decorated dark inp i bc st]\<rparr>"
  using assms by (simp add: loop_body_def Let_def paint_def decorated_def)

lemma loop_body_close_pop:
  assumes "isClosing (inp ! i)" "colorStack st \<noteq> []"
  shows "loop_body dark pal inp i st =
     Inr \<lparr>result = result st @ substring inp (lastIndex st) i
                     @ span_markup (paint dark (last (colorStack st)) (depth st)) (inp ! i),
          lastIndex = i + 1, depth = max 0 (depth st - 1),
          colorStack = butlast (colorStack st), usedColors = usedColors st,
          emitted = emitted st @ [decorated dark inp i (last (colorStack st)) st]\<rparr>"
  using assms closing_not_opening [OF assms(1)]
  by (simp add: loop_body_def Let_def paint_def decorated_def pop_def)

lemma loop_body_close_fallback:
  assumes "isClosing (inp ! i)" "colorStack st = []"
    "getNextColor pal (usedColors st) (depth st) = (Some bc, u)"
  shows "loop_body dark pal inp i st =
     Inr \<lparr>result = result st @ substring inp (lastIndex st) i
                     @ span_markup (paint dark bc (depth st)) (inp ! i),
          lastIndex = i + 1, depth = max 0 (depth st - 1),
          colorStack = [], usedColors = u,
          emitted = emitted st @ [decorated dark inp i bc st]\<rparr>"
  using assms closing_not_opening [OF assms(1)]
  by (simp add: loop_body_def Let_def paint_def decorated_def pop_def)

lemma synced_initial: "synced pal initial_state"
  by (simp add: synced_def initial_state_def)

lemma loop_body_cases [consumes 2, case_names plain opens pops falls]:
  assumes "pal \<noteq> []" "synced pal st"
  obtains
    "\<not> isOpening (inp ! i)" "\<not> isClosing (inp ! i)" "loop_body dark pal inp i st = Inr st"
  | bc u where "isOpening (inp ! i)" "\<not> isClosing (inp ! i)"
      "getNextColor pal (usedColors st) (depth st) = (Some bc, u)" "bc \<in> set pal"
      "loop_body dark pal inp i st =
         Inr \<lparr>result = result st @ substring inp (lastIndex st) i
                         @ span_markup (paint dark bc (depth st)) (inp ! i),
              lastIndex = i + 1, depth = depth st + 1,
              colorStack = colorStack st @ [bc], usedColors = u,
              emitted = emitted st @ [decorated dark inp i bc st]\<rparr>"
  | "isClosing (inp ! i)" "\<not> isOpening (inp ! i)" "colorStack st \<noteq> []"
      "loop_body dark pal inp i st =
         Inr \<lparr>result = result st @ substring inp (lastIndex st) i
                         @ span_markup (paint dark (last (colorStack st)) (depth st)) (inp ! i),
              lastIndex = i + 1, depth = depth st - 1,
              colorStack = butlast (colorStack st), usedColors = usedColors st,
              emitted = emitted st @ [decorated dark inp i (last (colorStack st)) st]\<rparr>"
  | bc u where "isClosing (inp ! i)" "\<not> isOpening (inp ! i)" "colorStack st = []" "depth st = 0"
      "getNextColor pal (usedColors st) (depth st) = (Some bc, u)" "bc \<in> set pal"
      "loop_body dark pal inp i st =
         Inr \<lparr>result = result st @ substring inp (lastIndex st) i
                         @ span_markup (paint dark bc (depth st)) (inp ! i),
              lastIndex = i + 1, depth = 0,
              colorStack = [], usedColors = u,
              emitted = emitted st @ [decorated dark inp i bc st]\<rparr>"
proof -
  have d: "0 \<le> depth st" using assms(2) by (simp add: synced_def)
  obtain bc u where g: "getNextColor pal (usedColors st) (depth st) = (Some bc, u)" "bc \<in> set pal"
    using getNextColor_some [OF d assms(1)] by blast
  show thesis
  proof (cases "isOpening (inp ! i)")
    case True
    then have "\<not> isClosing (inp ! i)" using closing_not_opening by blast
    then show ?thesis using True g loop_body_open [OF True g(1)] that(2) by blast
  next
    case no: False
    show ?thesis
    proof (cases "isClosing (inp ! i)")
      case False
      then show ?thesis using no loop_body_other that(1) by blast
    next
      case True
      show ?thesis
      proof (cases "colorStack st = []")
        case e: True
        then have z: "depth st = 0" using assms(2) by (simp add: synced_def)
        have "loop_body dark pal inp i st =
           Inr \<lparr>result = result st @ substring inp (lastIndex st) i
                         @ span_markup (paint dark bc (depth st)) (inp ! i),
              lastIndex = i + 1, depth = 0,
              colorStack = [], usedColors = u,
              emitted = emitted st @ [decorated dark inp i bc st]\<rparr>"
          using loop_body_close_fallback [OF True e g(1)] z by simp
        then show ?thesis using True no e z g that(4) by blast
      next
        case ne: False
        then have "0 < depth st" using assms(2) by (simp add: synced_def)
        then have "max 0 (depth st - 1) = depth st - 1" by simp
        then show ?thesis using loop_body_close_pop [OF True ne] True no ne that(3) by simp
      qed
    qed
  qed
qed

lemma loop_body_synced:
  assumes "pal \<noteq> []" "synced pal st"
  shows "\<exists>st'. loop_body dark pal inp i st = Inr st' \<and> synced pal st'"
  using assms
proof (cases rule: loop_body_cases [where inp = inp and i = i and dark = dark])
  case plain
  then show ?thesis using assms by simp
next
  case (opens bc u)
  then show ?thesis using assms by (simp add: synced_def)
next
  case pops
  then show ?thesis using assms
    by (auto simp add: synced_def of_nat_diff Suc_leI dest: in_set_butlastD)
next
  case (falls bc u)
  then show ?thesis by (simp add: synced_def)
qed

lemma for_loop_synced:
  assumes "pal \<noteq> []" "synced pal st"
  shows "\<exists>st'. for_loop dark pal inp st i k = Inr st' \<and> synced pal st'"
proof (induction k)
  case 0
  then show ?case using assms by simp
next
  case (Suc k)
  then obtain st1 where s: "for_loop dark pal inp st i k = Inr st1" "synced pal st1" by blast
  show ?case using loop_body_synced [OF assms(1) s(2)] s(1) by simp
qed

lemma for_loop_add:
  "for_loop dark pal inp st i (k1 + k2) =
     (case for_loop dark pal inp st i k1 of
        Inl e \<Rightarrow> Inl e
      | Inr st1 \<Rightarrow> for_loop dark pal inp st1 (i + k1) k2)"
proof (induction k2)
  case 0
  then show ?case by (simp split: sum.splits)
next
  case (Suc k2)
  have "for_loop dark pal inp st i (k1 + Suc k2) =
      (case for_loop dark pal inp st i (k1 + k2) of
         Inl e \<Rightarrow> Inl e | Inr st' \<Rightarrow> loop_body dark pal inp (i + (k1 + k2)) st')"
    by simp
  then show ?case unfolding Suc.IH by (simp split: sum.splits add: add.assoc)
qed

lemma for_loop_head:
  "for_loop dark pal inp st i (Suc k) =
     (case loop_body dark pal inp i st of
        Inl e \<Rightarrow> Inl e
      | Inr st1 \<Rightarrow> for_loop dark pal inp st1 (Suc i) k)"
proof -
  have a: "for_loop dark pal inp st i (Suc 0) = loop_body dark pal inp i st" by simp
  have "Suc k = Suc 0 + k" by simp
  then have "for_loop dark pal inp st i (Suc k) = for_loop dark pal inp st i (Suc 0 + k)"
    by (simp only:)
  also have "\<dots> = (case for_loop dark pal inp st i (Suc 0) of
        Inl e \<Rightarrow> Inl e | Inr st1 \<Rightarrow> for_loop dark pal inp st1 (i + Suc 0) k)"
    by (rule for_loop_add)
  finally show ?thesis unfolding a add_Suc_right add_0_right .
qed

lemma scan_synced:
  assumes "pal \<noteq> []"
  shows "\<exists>st. scan dark pal inp k = Inr st \<and> synced pal st"
  unfolding scan_def using for_loop_synced [OF assms synced_initial] .

lemma scan_Suc:
  "scan dark pal inp k = Inr st \<Longrightarrow>
   scan dark pal inp (Suc k) = loop_body dark pal inp k st"
  by (simp add: scan_def)

text \<open>The decorations recorded are the spans written.\<close>

lemma replay_snoc:
  "replay inp (ds @ [d]) =
     (fst (replay inp ds) @ substring inp (snd (replay inp ds)) (position d)
        @ span_markup (hexColor d) (delimiter d), position d + 1)"
  by (simp add: replay_def split: prod.splits)

lemma scan_replay:
  assumes "pal \<noteq> []"
  shows "\<exists>st. scan dark pal inp k = Inr st \<and> synced pal st
           \<and> replay inp (emitted st) = (result st, lastIndex st)"
proof (induction k)
  case 0
  then show ?case by (simp add: scan_def initial_state_def synced_def replay_def)
next
  case (Suc k)
  then obtain st where s: "scan dark pal inp k = Inr st" "synced pal st"
      "replay inp (emitted st) = (result st, lastIndex st)"
    by blast
  note n = scan_Suc [OF s(1)]
  obtain st' where b: "loop_body dark pal inp k st = Inr st'" "synced pal st'"
    using loop_body_synced [OF assms s(2)] by blast
  from assms s(2) show ?case
  proof (cases rule: loop_body_cases [where inp = inp and i = k and dark = dark])
    case plain
    then show ?thesis using n s by simp
  next
    case (opens bc u)
    then show ?thesis using n b s(3) by (auto simp: replay_snoc decorated_def)
  next
    case pops
    then show ?thesis using n b s(3) by (auto simp: replay_snoc decorated_def)
  next
    case (falls bc u)
    then show ?thesis using n b s(3) by (auto simp: replay_snoc decorated_def)
  qed
qed

lemma processText_replay:
  assumes "pal \<noteq> []"
  shows "\<exists>st. scan dark pal inp (length inp) = Inr st
           \<and> processText dark pal inp
               = Inr (fst (replay inp (emitted st))
                      @ substring inp (snd (replay inp (emitted st))) (length inp))"
proof -
  obtain st where "scan dark pal inp (length inp) = Inr st"
      "replay inp (emitted st) = (result st, lastIndex st)"
    using scan_replay [OF assms] by blast
  then show ?thesis by (simp add: processText_def)
qed

lemma constructor_baseColors_nonempty: "constructor_baseColors \<noteq> []"
  by (simp add: constructor_baseColors_def generateBaseColors_eq)

text \<open>C10: at every step of the scan the depth is the number of colours on the stack; so
  the pop of a closing delimiter finds the stack empty, and the fallback is taken, exactly
  when the depth is 0, and the clamped decrement keeps depth and stack together.\<close>

theorem depth_is_stack_height:
  assumes "baseColors \<noteq> []" "k \<le> length inp"
  shows "\<exists>st. scan dark baseColors inp k = Inr st
            \<and> depth st = int (length (colorStack st))
            \<and> (fst (pop (colorStack st)) = None \<longleftrightarrow> depth st = 0)"
proof -
  obtain st where s: "scan dark baseColors inp k = Inr st" "synced baseColors st"
    using scan_synced [OF assms(1)] by blast
  then show ?thesis by (auto simp: synced_def pop_def)
qed

theorem depth_is_stack_height_witness:
  "\<exists>st. scan True constructor_baseColors ''(()))'' 5 = Inr st
        \<and> depth st = int (length (colorStack st))
        \<and> (fst (pop (colorStack st)) = None \<longleftrightarrow> depth st = 0)"
  using depth_is_stack_height [of constructor_baseColors 5 "''(()))''" True]
  by (simp add: constructor_baseColors_nonempty)

text \<open>C7: the depth handed to the adjuster for a delimiter is the depth at the moment the
  character is met: the span written for the character at index i is coloured with the
  depth of the state before the pass, and only then the depth is incremented (opening)
  or decremented with the clamp at 0 (closing).\<close>

theorem adjuster_gets_current_depth:
  assumes "baseColors \<noteq> []" "i < length inp" "isOpening (inp ! i) \<or> isClosing (inp ! i)"
  shows "\<exists>st st' bc. scan dark baseColors inp i = Inr st
            \<and> scan dark baseColors inp (Suc i) = Inr st'
            \<and> emitted st' = emitted st @
                 [\<lparr>position = i, delimiter = inp ! i, baseColor = bc, adjustDepth = depth st,
                   hexColor = paint dark bc (depth st)\<rparr>]
            \<and> result st' = result st @ substring inp (lastIndex st) i
                              @ span_markup (paint dark bc (depth st)) (inp ! i)
            \<and> depth st' = (if isOpening (inp ! i) then depth st + 1 else max 0 (depth st - 1))"
proof -
  obtain st where s: "scan dark baseColors inp i = Inr st" "synced baseColors st"
    using scan_synced [OF assms(1)] by blast
  note n = scan_Suc [OF s(1)]
  from assms(1) s(2) show ?thesis
  proof (cases rule: loop_body_cases [where inp = inp and i = i and dark = dark])
    case plain
    then show ?thesis using assms(3) by simp
  next
    case (opens bc u)
    then show ?thesis using s(1) n by (simp add: decorated_def)
  next
    case pops
    then have "0 < depth st" using s(2) by (simp add: synced_def)
    then show ?thesis using pops s(1) n by (simp add: decorated_def)
  next
    case (falls bc u)
    then show ?thesis using s(1) n by (simp add: decorated_def)
  qed
qed

theorem adjuster_gets_current_depth_witness:
  "\<exists>st st' bc. scan False constructor_baseColors ''(x)'' 2 = Inr st
            \<and> scan False constructor_baseColors ''(x)'' 3 = Inr st'
            \<and> emitted st' = emitted st @
                 [\<lparr>position = 2, delimiter = CHR '')'', baseColor = bc, adjustDepth = depth st,
                   hexColor = paint False bc (depth st)\<rparr>]
            \<and> depth st' = max 0 (depth st - 1)"
proof -
  have c: "isClosing (CHR '')'')" "\<not> isOpening (CHR '')'')"
    by (simp_all add: isClosing_def isOpening_def delimiter_pairs_def)
  have e: "Suc 2 = 3" by simp
  show ?thesis
    using adjuster_gets_current_depth [of constructor_baseColors 2 "''(x)''" False] c
    by (simp add: constructor_baseColors_nonempty e) blast
qed

lemma processText_runs:
  assumes "pal \<noteq> []"
  shows "\<exists>out. processText dark pal inp = Inr out"
  using scan_synced [OF assms, of dark inp "length inp"] by (auto simp: processText_def)

lemma for_loop_result_grows:
  assumes "pal \<noteq> []" "synced pal st"
  shows "\<exists>st' more. for_loop dark pal inp st i k = Inr st' \<and> synced pal st'
           \<and> result st' = result st @ more"
proof (induction k)
  case 0
  then show ?case using assms by simp
next
  case (Suc k)
  then obtain st1 more where s: "for_loop dark pal inp st i k = Inr st1" "synced pal st1"
      "result st1 = result st @ more"
    by blast
  have n: "for_loop dark pal inp st i (Suc k) = loop_body dark pal inp (i + k) st1"
    using s(1) by simp
  obtain st2 where b: "loop_body dark pal inp (i + k) st1 = Inr st2" "synced pal st2"
    using loop_body_synced [OF assms(1) s(2)] by blast
  have "\<exists>more'. result st2 = result st1 @ more'"
    using assms(1) s(2)
  proof (cases rule: loop_body_cases [where inp = inp and i = "i + k" and dark = dark])
    case plain
    then show ?thesis using b by simp
  next
    case (opens bc u)
    then show ?thesis using b by auto
  next
    case pops
    then show ?thesis using b by auto
  next
    case (falls bc u)
    then show ?thesis using b by auto
  qed
  then obtain more' where "result st2 = result st @ (more @ more')" using s(3) by auto
  then show ?case using n b by auto
qed

lemma processText_extends:
  assumes "pal \<noteq> []" "i \<le> length inp" "scan dark pal inp i = Inr st"
  shows "\<exists>rest. processText dark pal inp = Inr (result st @ rest)"
proof -
  have sy: "synced pal st" using scan_synced [OF assms(1), of dark inp i] assms(3) by simp
  obtain st' more where f: "for_loop dark pal inp st i (length inp - i) = Inr st'"
      "result st' = result st @ more"
    using for_loop_result_grows [OF assms(1) sy] by blast
  have "scan dark pal inp (i + (length inp - i)) = for_loop dark pal inp st (0 + i) (length inp - i)"
    unfolding scan_def for_loop_add using assms(3) by (simp add: scan_def)
  then have "scan dark pal inp (length inp) = Inr st'" using f(1) assms(2) by simp
  then show ?thesis using f(2) by (simp add: processText_def)
qed

lemma repeated_getNextColor_Suc:
  "repeated_getNextColor pal used d (Suc n) =
     (fst (repeated_getNextColor pal used d n)
        @ [fst (getNextColor pal (snd (repeated_getNextColor pal used d n)) d)],
      snd (getNextColor pal (snd (repeated_getNextColor pal used d n)) d))"
  by (simp split: prod.splits)

lemma closing_only_run:
  assumes "pal \<noteq> []"
  shows "k \<le> length inp \<Longrightarrow> (\<forall>j < k. isClosing (inp ! j)) \<Longrightarrow>
    \<exists>st. scan dark pal inp k = Inr st \<and> depth st = 0 \<and> colorStack st = []
       \<and> map position (emitted st) = [0..<k] \<and> map delimiter (emitted st) = take k inp
       \<and> map (\<lambda>d. Some (baseColor d)) (emitted st) = fst (repeated_getNextColor pal {} 0 k)
       \<and> usedColors st = snd (repeated_getNextColor pal {} 0 k)
       \<and> list_all (\<lambda>d. adjustDepth d = 0) (emitted st)
       \<and> lastIndex st = k
       \<and> result st = concat (map (\<lambda>d. span_markup (paint dark (baseColor d) 0) (delimiter d))
                                 (emitted st))"
proof (induction k)
  case 0
  then show ?case by (simp add: scan_def initial_state_def)
next
  case (Suc k)
  then obtain st where s: "scan dark pal inp k = Inr st" "depth st = 0" "colorStack st = []"
    "map position (emitted st) = [0..<k]" "map delimiter (emitted st) = take k inp"
    "map (\<lambda>d. Some (baseColor d)) (emitted st) = fst (repeated_getNextColor pal {} 0 k)"
    "usedColors st = snd (repeated_getNextColor pal {} 0 k)"
    "list_all (\<lambda>d. adjustDepth d = 0) (emitted st)"
    "lastIndex st = k"
    "result st = concat (map (\<lambda>d. span_markup (paint dark (baseColor d) 0) (delimiter d))
                              (emitted st))"
    by auto
  have c: "isClosing (inp ! k)" using Suc.prems by simp
  obtain bc u where g: "getNextColor pal (usedColors st) (depth st) = (Some bc, u)"
    using getNextColor_some [of "depth st" pal "usedColors st"] assms s(2) by auto
  have t: "take (Suc k) inp = take k inp @ [inp ! k]"
    using Suc.prems by (simp add: take_Suc_conv_app_nth)
  have e: "substring inp k k = []" using Suc.prems by (simp add: substring_mid)
  have "scan dark pal inp (Suc k) = loop_body dark pal inp k st" by (rule scan_Suc [OF s(1)])
  then show ?case
    using loop_body_close_fallback [OF c s(3) g, of dark] s g t e
    by (simp add: decorated_def repeated_getNextColor_Suc del: repeated_getNextColor.simps(2))
qed

lemma closing_on_empty_stack:
  assumes "pal \<noteq> []" "isClosing (inp ! i)" "i < length inp"
  shows "\<exists>st st'. scan dark pal inp i = Inr st \<and> scan dark pal inp (Suc i) = Inr st'
           \<and> (colorStack st = [] \<longrightarrow>
                (\<exists>bc u. getNextColor pal (usedColors st) (depth st) = (Some bc, u)
                   \<and> emitted st' = emitted st @ [decorated dark inp i bc st]
                   \<and> result st' = result st @ substring inp (lastIndex st) i
                                     @ span_markup (paint dark bc (depth st)) (inp ! i)
                   \<and> (\<exists>rest. processText dark pal inp = Inr (result st' @ rest))
                   \<and> usedColors st' = u \<and> depth st = 0 \<and> depth st' = 0))"
proof -
  obtain st where s: "scan dark pal inp i = Inr st" "synced pal st"
    using scan_synced [OF assms(1)] by blast
  note n = scan_Suc [OF s(1)]
  obtain st' where b: "loop_body dark pal inp i st = Inr st'"
    using loop_body_synced [OF assms(1) s(2)] by blast
  have x: "\<exists>rest. processText dark pal inp = Inr (result st' @ rest)"
    using processText_extends [OF assms(1), of "Suc i" inp dark st'] assms(3) n b by simp
  from assms(1) s(2) show ?thesis
  proof (cases rule: loop_body_cases [where inp = inp and i = i and dark = dark])
    case plain
    then show ?thesis using assms(2) by simp
  next
    case (opens bc u)
    then show ?thesis using assms(2) by simp
  next
    case pops
    then show ?thesis using s(1) n by simp
  next
    case (falls bc u)
    then show ?thesis using s(1) n b x by auto
  qed
qed


text \<open>C4: a closing delimiter met with an empty colour stack does not make the scan fail.
  For a non-empty palette processText returns for every input and the depth is never
  negative; a closing delimiter scanned with an empty stack gets a span, appended to the
  text written and kept in what processText returns, whose colour is the result of
  getNextColor at the current depth, which is 0 and stays 0; and for an input of closing
  delimiters only, what processText returns is one span for every character, coloured by
  the successive results of getNextColor(0) adjusted at depth 0, and the depth is 0 after
  every pass.\<close>

theorem closing_without_opening:
  assumes "baseColors \<noteq> []"
  shows "(\<exists>out. processText dark baseColors inp = Inr out)
       \<and> (\<forall>k \<le> length inp. \<exists>st. scan dark baseColors inp k = Inr st \<and> 0 \<le> depth st)
       \<and> (\<forall>i < length inp. isClosing (inp ! i) \<longrightarrow>
            (\<exists>st st'. scan dark baseColors inp i = Inr st
               \<and> scan dark baseColors inp (Suc i) = Inr st'
               \<and> (colorStack st = [] \<longrightarrow>
                    (\<exists>bc u. getNextColor baseColors (usedColors st) (depth st) = (Some bc, u)
                       \<and> emitted st' = emitted st @ [decorated dark inp i bc st]
                       \<and> result st' = result st @ substring inp (lastIndex st) i
                                         @ span_markup (paint dark bc (depth st)) (inp ! i)
                       \<and> (\<exists>rest. processText dark baseColors inp = Inr (result st' @ rest))
                       \<and> usedColors st' = u \<and> depth st = 0 \<and> depth st' = 0))))
       \<and> (list_all isClosing inp \<longrightarrow>
            (\<exists>st. scan dark baseColors inp (length inp) = Inr st \<and> depth st = 0
               \<and> map position (emitted st) = [0..<length inp]
               \<and> map delimiter (emitted st) = inp
               \<and> map (\<lambda>d. Some (baseColor d)) (emitted st)
                   = fst (repeated_getNextColor baseColors {} 0 (length inp))
               \<and> list_all (\<lambda>d. adjustDepth d = 0) (emitted st)
               \<and> processText dark baseColors inp
                   = Inr (concat (map (\<lambda>d. span_markup (paint dark (baseColor d) 0) (delimiter d))
                                       (emitted st))))
            \<and> (\<forall>k \<le> length inp. \<exists>st. scan dark baseColors inp k = Inr st \<and> depth st = 0))"
proof (intro conjI allI impI)
  show "\<exists>out. processText dark baseColors inp = Inr out"
    by (rule processText_runs [OF assms])
next
  fix k
  obtain st where "scan dark baseColors inp k = Inr st" "synced baseColors st"
    using scan_synced [OF assms] by blast
  then show "\<exists>st. scan dark baseColors inp k = Inr st \<and> 0 \<le> depth st"
    by (auto simp: synced_def)
next
  fix i assume "i < length inp" "isClosing (inp ! i)"
  then show "\<exists>st st'. scan dark baseColors inp i = Inr st
               \<and> scan dark baseColors inp (Suc i) = Inr st'
               \<and> (colorStack st = [] \<longrightarrow>
                    (\<exists>bc u. getNextColor baseColors (usedColors st) (depth st) = (Some bc, u)
                       \<and> emitted st' = emitted st @ [decorated dark inp i bc st]
                       \<and> result st' = result st @ substring inp (lastIndex st) i
                                         @ span_markup (paint dark bc (depth st)) (inp ! i)
                       \<and> (\<exists>rest. processText dark baseColors inp = Inr (result st' @ rest))
                       \<and> usedColors st' = u \<and> depth st = 0 \<and> depth st' = 0))"
    using closing_on_empty_stack [OF assms] by blast
next
  assume a: "list_all isClosing inp"
  then have "\<forall>j < length inp. isClosing (inp ! j)" by (simp add: list_all_length)
  from closing_only_run [OF assms _ this, of dark]
  obtain st where s: "scan dark baseColors inp (length inp) = Inr st" "depth st = 0"
      "map position (emitted st) = [0..<length inp]"
      "map delimiter (emitted st) = take (length inp) inp"
      "map (\<lambda>d. Some (baseColor d)) (emitted st)
         = fst (repeated_getNextColor baseColors {} 0 (length inp))"
      "list_all (\<lambda>d. adjustDepth d = 0) (emitted st)"
      "lastIndex st = length inp"
      "result st = concat (map (\<lambda>d. span_markup (paint dark (baseColor d) 0) (delimiter d))
                                (emitted st))"
    by auto
  have "processText dark baseColors inp = Inr (result st)"
    using s(1,7) by (simp add: processText_def substring_end)
  then show "\<exists>st. scan dark baseColors inp (length inp) = Inr st \<and> depth st = 0
               \<and> map position (emitted st) = [0..<length inp]
               \<and> map delimiter (emitted st) = inp
               \<and> map (\<lambda>d. Some (baseColor d)) (emitted st)
                   = fst (repeated_getNextColor baseColors {} 0 (length inp))
               \<and> list_all (\<lambda>d. adjustDepth d = 0) (emitted st)
               \<and> processText dark baseColors inp
                   = Inr (concat (map (\<lambda>d. span_markup (paint dark (baseColor d) 0) (delimiter d))
                                       (emitted st)))"
    using s by auto
next
  fix k assume a: "list_all isClosing inp" "k \<le> length inp"
  then have "\<forall>j < k. isClosing (inp ! j)" by (simp add: list_all_length)
  then show "\<exists>st. scan dark baseColors inp k = Inr st \<and> depth st = 0"
    using closing_only_run [OF assms a(2), of dark] by auto
qed

theorem closing_without_opening_witness:
  \<open>\<exists>st. scan False constructor_baseColors '')))'' 3 = Inr st \<and> depth st = 0
      \<and> map position (emitted st) = [0, 1, 2]
      \<and> map delimiter (emitted st) = '')))''
      \<and> map (\<lambda>d. Some (baseColor d)) (emitted st)
          = [Some (constructor_baseColors ! 0), Some (constructor_baseColors ! 1),
             Some (constructor_baseColors ! 2)]
      \<and> list_all (\<lambda>d. adjustDepth d = 0) (emitted st)
      \<and> concat (map (\<lambda>d. span_markup (paint False (baseColor d) 0) (delimiter d)) (emitted st))
          = ''<span style="color: #981b1b">)</span><span style="color: #98321b">)</span><span style="color: #984a1b">)</span>''
      \<and> processText False constructor_baseColors '')))''
          = Inr ''<span style="color: #981b1b">)</span><span style="color: #98321b">)</span><span style="color: #984a1b">)</span>''\<close>
proof -
  have c: "list_all isClosing '')))''" by code_simp
  have r: "fst (repeated_getNextColor constructor_baseColors {} 0 3)
      = [Some (constructor_baseColors ! 0), Some (constructor_baseColors ! 1),
         Some (constructor_baseColors ! 2)]" by code_simp
  have u: "[0..<3] = [0, 1, 2::nat]" by code_simp
  have n: "length '')))'' = 3" by simp
  have p: \<open>processText False constructor_baseColors '')))''
      = Inr ''<span style="color: #981b1b">)</span><span style="color: #98321b">)</span><span style="color: #984a1b">)</span>''\<close>
    by code_simp
  from closing_without_opening [OF constructor_baseColors_nonempty, of False "'')))''"] c
  have "\<exists>st. scan False constructor_baseColors '')))'' (length '')))'') = Inr st \<and> depth st = 0
      \<and> map position (emitted st) = [0..<length '')))'']
      \<and> map delimiter (emitted st) = '')))''
      \<and> map (\<lambda>d. Some (baseColor d)) (emitted st)
          = fst (repeated_getNextColor constructor_baseColors {} 0 (length '')))''))
      \<and> list_all (\<lambda>d. adjustDepth d = 0) (emitted st)
      \<and> processText False constructor_baseColors '')))''
          = Inr (concat (map (\<lambda>d. span_markup (paint False (baseColor d) 0) (delimiter d))
                              (emitted st)))"
    by blast
  then show ?thesis unfolding n r u p by auto
qed

lemma isOpening_map_of: "isOpening ch \<longleftrightarrow> map_of delimiter_pairs ch \<noteq> None"
  by (simp add: isOpening_def map_of_eq_None_iff)

lemma for_loop_trace:
  assumes "pal \<noteq> []" "synced pal st"
  shows "\<exists>st' new. for_loop dark pal inp st i k = Inr st' \<and> synced pal st'
     \<and> emitted st' = emitted st @ new
     \<and> map position new = filter (\<lambda>j. isOpening (inp ! j) \<or> isClosing (inp ! j)) [i..<i + k]
     \<and> (\<forall>d \<in> set new. delimiter d = inp ! position d)"
proof (induction k)
  case 0
  then show ?case using assms by simp
next
  case (Suc k)
  then obtain st1 new where s: "for_loop dark pal inp st i k = Inr st1" "synced pal st1"
    "emitted st1 = emitted st @ new"
    "map position new = filter (\<lambda>j. isOpening (inp ! j) \<or> isClosing (inp ! j)) [i..<i + k]"
    "\<forall>d \<in> set new. delimiter d = inp ! position d"
    by blast
  have n: "for_loop dark pal inp st i (Suc k) = loop_body dark pal inp (i + k) st1"
    using s(1) by simp
  obtain st2 where b: "loop_body dark pal inp (i + k) st1 = Inr st2" "synced pal st2"
    using loop_body_synced [OF assms(1) s(2)] by blast
  from assms(1) s(2) show ?case
  proof (cases rule: loop_body_cases [where inp = inp and i = "i + k" and dark = dark])
    case plain
    then show ?thesis using s n by auto
  next
    case (opens bc u)
    let ?new = "new @ [decorated dark inp (i + k) bc st1]"
    from opens have "emitted st2 = emitted st @ (new @ [decorated dark inp (i + k) bc st1])"
      using b s(3) by auto
    moreover have "map position (new @ [decorated dark inp (i + k) bc st1])
        = filter (\<lambda>j. isOpening (inp ! j) \<or> isClosing (inp ! j)) [i..<i + Suc k]"
      using opens(1) s(4) by (simp add: decorated_def)
    moreover have "\<forall>d \<in> set (new @ [decorated dark inp (i + k) bc st1]). delimiter d = inp ! position d"
      using s(5) by (simp add: decorated_def)
    ultimately have "for_loop dark pal inp st i (Suc k) = Inr st2 \<and> synced pal st2
        \<and> emitted st2 = emitted st @ ?new
        \<and> map position ?new
            = filter (\<lambda>j. isOpening (inp ! j) \<or> isClosing (inp ! j)) [i..<i + Suc k]
        \<and> (\<forall>d \<in> set ?new. delimiter d = inp ! position d)"
      using n b by simp
    then show ?thesis by blast
  next
    case pops
    let ?bc = "last (colorStack st1)"
    let ?new = "new @ [decorated dark inp (i + k) ?bc st1]"
    from pops have "emitted st2 = emitted st @ (new @ [decorated dark inp (i + k) ?bc st1])"
      using b s(3) by auto
    moreover have "map position (new @ [decorated dark inp (i + k) ?bc st1])
        = filter (\<lambda>j. isOpening (inp ! j) \<or> isClosing (inp ! j)) [i..<i + Suc k]"
      using pops(1) s(4) by (simp add: decorated_def)
    moreover have "\<forall>d \<in> set (new @ [decorated dark inp (i + k) ?bc st1]). delimiter d = inp ! position d"
      using s(5) by (simp add: decorated_def)
    ultimately have "for_loop dark pal inp st i (Suc k) = Inr st2 \<and> synced pal st2
        \<and> emitted st2 = emitted st @ ?new
        \<and> map position ?new
            = filter (\<lambda>j. isOpening (inp ! j) \<or> isClosing (inp ! j)) [i..<i + Suc k]
        \<and> (\<forall>d \<in> set ?new. delimiter d = inp ! position d)"
      using n b by simp
    then show ?thesis by blast
  next
    case (falls bc u)
    let ?new = "new @ [decorated dark inp (i + k) bc st1]"
    from falls have "emitted st2 = emitted st @ (new @ [decorated dark inp (i + k) bc st1])"
      using b s(3) by auto
    moreover have "map position (new @ [decorated dark inp (i + k) bc st1])
        = filter (\<lambda>j. isOpening (inp ! j) \<or> isClosing (inp ! j)) [i..<i + Suc k]"
      using falls(1) s(4) by (simp add: decorated_def)
    moreover have "\<forall>d \<in> set (new @ [decorated dark inp (i + k) bc st1]). delimiter d = inp ! position d"
      using s(5) by (simp add: decorated_def)
    ultimately have "for_loop dark pal inp st i (Suc k) = Inr st2 \<and> synced pal st2
        \<and> emitted st2 = emitted st @ ?new
        \<and> map position ?new
            = filter (\<lambda>j. isOpening (inp ! j) \<or> isClosing (inp ! j)) [i..<i + Suc k]
        \<and> (\<forall>d \<in> set ?new. delimiter d = inp ! position d)"
      using n b by simp
    then show ?thesis by blast
  qed
qed

lemma nested_segment:
  assumes "pal \<noteq> []"
  shows "spec_nested expect seg \<Longrightarrow> seg = take k (drop i inp) \<Longrightarrow> i + k \<le> length inp \<Longrightarrow>
    synced pal st \<Longrightarrow> length expect \<le> length (colorStack st) \<Longrightarrow>
    \<exists>st' new. for_loop dark pal inp st i k = Inr st' \<and> synced pal st'
      \<and> colorStack st' = take (length (colorStack st) - length expect) (colorStack st)
      \<and> emitted st' = emitted st @ new
      \<and> length (filter (\<lambda>d. isOpening (delimiter d)) new) + length expect
          = length (filter (\<lambda>d. isClosing (delimiter d)) new)"
proof (induction seg arbitrary: expect k i st)
  case Nil
  then have "k = 0" by auto
  then show ?case using Nil by simp
next
  case (Cons ch rest)
  from Cons.prems(2) have k0: "k \<noteq> 0" by (cases k) simp_all
  then obtain k' where k: "k = Suc k'" by (cases k) auto
  have il: "i < length inp" using Cons.prems(3) k by simp
  have dr: "drop i inp = inp ! i # drop (Suc i) inp" using il by (simp add: Cons_nth_drop_Suc)
  have ch: "ch = inp ! i" and rest: "rest = take k' (drop (Suc i) inp)"
    using Cons.prems(2) unfolding k dr by simp_all
  have le: "Suc i + k' \<le> length inp" using Cons.prems(3) k by simp
  note hd = for_loop_head [of dark pal inp st i k']
  from assms Cons.prems(4) show ?case
  proof (cases rule: loop_body_cases [where inp = inp and i = i and dark = dark])
    case plain
    then have "spec_nested expect rest"
      using Cons.prems(1) ch by (simp add: isOpening_map_of)
    from Cons.IH [OF this rest le Cons.prems(4) Cons.prems(5)]
    show ?thesis using plain hd k by simp
  next
    case (opens bc u)
    let ?st1 = "\<lparr>result = result st @ substring inp (lastIndex st) i
                         @ span_markup (paint dark bc (depth st)) (inp ! i),
              lastIndex = i + 1, depth = depth st + 1,
              colorStack = colorStack st @ [bc], usedColors = u,
              emitted = emitted st @ [decorated dark inp i bc st]\<rparr>"
    obtain cl where m: "map_of delimiter_pairs ch = Some cl"
      using opens(1) ch by (auto simp: isOpening_map_of)
    then have sn: "spec_nested (cl # expect) rest" using Cons.prems(1) by simp
    have sy: "synced pal ?st1" using Cons.prems(4) opens(4) by (simp add: synced_def)
    have ln: "length (cl # expect) \<le> length (colorStack ?st1)" using Cons.prems(5) by simp
    from Cons.IH [OF sn rest le sy ln] obtain st' new where
      r: "for_loop dark pal inp ?st1 (Suc i) k' = Inr st'" "synced pal st'"
         "colorStack st' = take (length (colorStack ?st1) - length (cl # expect)) (colorStack ?st1)"
         "emitted st' = emitted ?st1 @ new"
         "length (filter (\<lambda>d. isOpening (delimiter d)) new) + length (cl # expect)
            = length (filter (\<lambda>d. isClosing (delimiter d)) new)"
      by blast
    have a: "for_loop dark pal inp st i k = Inr st'" using hd opens(5) r(1) k by simp
    have b: "colorStack st' = take (length (colorStack st) - length expect) (colorStack st)"
      using r(3) by simp
    have c: "emitted st' = emitted st @ (decorated dark inp i bc st # new)" using r(4) by simp
    have d: "length (filter (\<lambda>d. isOpening (delimiter d)) (decorated dark inp i bc st # new))
            + length expect
          = length (filter (\<lambda>d. isClosing (delimiter d)) (decorated dark inp i bc st # new))"
      using r(5) opens(1,2) by (simp add: decorated_def)
    show ?thesis using a r(2) b c d by blast
  next
    case pops
    let ?bc = "last (colorStack st)"
    let ?st1 = "\<lparr>result = result st @ substring inp (lastIndex st) i
                         @ span_markup (paint dark ?bc (depth st)) (inp ! i),
              lastIndex = i + 1, depth = depth st - 1,
              colorStack = butlast (colorStack st), usedColors = usedColors st,
              emitted = emitted st @ [decorated dark inp i ?bc st]\<rparr>"
    have m: "map_of delimiter_pairs ch = None" using pops(2) ch by (simp add: isOpening_map_of)
    then obtain e es where ex: "expect = e # es" and sn: "spec_nested es rest"
      using Cons.prems(1) pops(1) ch by (cases expect) simp_all
    have sy: "synced pal ?st1" using loop_body_synced [OF assms Cons.prems(4), of dark inp i] pops(4)
      by simp
    have ln: "length es \<le> length (colorStack ?st1)" using Cons.prems(5) ex by simp
    from Cons.IH [OF sn rest le sy ln] obtain st' new where
      r: "for_loop dark pal inp ?st1 (Suc i) k' = Inr st'" "synced pal st'"
         "colorStack st' = take (length (colorStack ?st1) - length es) (colorStack ?st1)"
         "emitted st' = emitted ?st1 @ new"
         "length (filter (\<lambda>d. isOpening (delimiter d)) new) + length es
            = length (filter (\<lambda>d. isClosing (delimiter d)) new)"
      by blast
    have a: "for_loop dark pal inp st i k = Inr st'" using hd pops(4) r(1) k by simp
    have "take (length (colorStack st) - 1 - length es) (butlast (colorStack st))
        = take (length (colorStack st) - length expect) (colorStack st)"
      using ex by (simp add: butlast_conv_take)
    then have b: "colorStack st' = take (length (colorStack st) - length expect) (colorStack st)"
      using r(3) by simp
    have c: "emitted st' = emitted st @ (decorated dark inp i ?bc st # new)" using r(4) by simp
    have d: "length (filter (\<lambda>d. isOpening (delimiter d)) (decorated dark inp i ?bc st # new))
            + length expect
          = length (filter (\<lambda>d. isClosing (delimiter d)) (decorated dark inp i ?bc st # new))"
      using r(5) pops(1,2) ex by (simp add: decorated_def)
    show ?thesis using a r(2) b c d by blast
  next
    case (falls bc u)
    have m: "map_of delimiter_pairs ch = None" using falls(2) ch by (simp add: isOpening_map_of)
    then obtain e es where ex: "expect = e # es"
      using Cons.prems(1) falls(1) ch by (cases expect) simp_all
    then show ?thesis using Cons.prems(5) falls(3) by simp
  qed
qed




lemma find_skip: "(\<forall>x \<in> set xs. \<not> P x) \<Longrightarrow> List.find P (xs @ ys) = List.find P ys"
  by (induction xs) simp_all

lemma trace_positions:
  assumes "map position new = filter Q [i..<i + k]" "d \<in> set new"
  shows "i \<le> position d \<and> position d < i + k"
proof -
  have "position d \<in> set (map position new)" using assms(2) by simp
  then have "position d \<in> set [i..<i + k]" unfolding assms(1) by simp
  then show ?thesis by simp
qed

lemma matched_pair:
  assumes ne: "pal \<noteq> []" and inp: "inp = pre @ [op] @ mid @ [cl] @ post"
    and op: "isOpening op" and cl: "isClosing cl" and mid: "spec_nested [] mid"
  shows "\<exists>st st0 st1 d1 d2. scan dark pal inp (length inp) = Inr st
      \<and> decoration_at (emitted st) (length pre) = Some d1
      \<and> decoration_at (emitted st) (length pre + 1 + length mid) = Some d2
      \<and> scan dark pal inp (length pre) = Inr st0
      \<and> scan dark pal inp (length pre + 1) = Inr st1
      \<and> colorStack st1 = colorStack st0 @ [baseColor d1]
      \<and> delimiter d1 = op
      \<and> hexColor d1 = paint dark (baseColor d1) (adjustDepth d1)
      \<and> baseColor d2 = baseColor d1
      \<and> adjustDepth d2 = adjustDepth d1 + 1
      \<and> hexColor d2 = paint dark (baseColor d1) (adjustDepth d1 + 1)
      \<and> delimiter d2 = cl"
proof -
  let ?p = "length pre" and ?m = "length mid"
  let ?q = "Suc (length pre) + length mid"
  let ?Q = "\<lambda>j. isOpening (inp ! j) \<or> isClosing (inp ! j)"
  have at_p: "inp ! ?p = op" unfolding inp by simp
  have at_q: "inp ! ?q = cl" unfolding inp by (simp add: nth_append)
  have seg: "mid = take ?m (drop (Suc ?p) inp)" unfolding inp by simp
  have len: "length inp = Suc ?q + length post" unfolding inp by simp
  \<comment> \<open>the passes before the opening delimiter\<close>
  obtain st0 n0 where s0: "for_loop dark pal inp initial_state 0 ?p = Inr st0" "synced pal st0"
      "emitted st0 = emitted initial_state @ n0" "map position n0 = filter ?Q [0..<0 + ?p]"
    using for_loop_trace [OF ne synced_initial, of dark inp 0 ?p] by blast
  have e0: "emitted st0 = n0" using s0(3) by (simp add: initial_state_def)
  have sc0: "scan dark pal inp ?p = Inr st0" using s0(1) by (simp add: scan_def)
  \<comment> \<open>the opening delimiter\<close>
  from ne s0(2) obtain bc u st1 where s1: "loop_body dark pal inp ?p st0 = Inr st1"
      "colorStack st1 = colorStack st0 @ [bc]" "emitted st1 = emitted st0 @ [decorated dark inp ?p bc st0]"
      "depth st1 = depth st0 + 1"
  proof (cases rule: loop_body_cases [where inp = inp and i = ?p and dark = dark])
    case plain
    then show ?thesis using op at_p by simp
  next
    case (opens bc u)
    then show ?thesis using that by simp
  next
    case pops
    then show ?thesis using op at_p by simp
  next
    case (falls bc u)
    then show ?thesis using op at_p by simp
  qed
  have sc1: "scan dark pal inp (Suc ?p) = Inr st1" using scan_Suc [OF sc0] s1(1) by simp
  have sy1: "synced pal st1" using loop_body_synced [OF ne s0(2), of dark inp ?p] s1(1) by simp
  let ?d1 = "decorated dark inp ?p bc st0"
  \<comment> \<open>the nested segment between the two\<close>
  have "Suc ?p + ?m \<le> length inp" using len by simp
  from nested_segment [OF ne mid seg this sy1, of dark]
  obtain st2 where s2: "for_loop dark pal inp st1 (Suc ?p) ?m = Inr st2" "synced pal st2"
      "colorStack st2 = colorStack st1"
    by auto
  obtain st2' nm where t2: "for_loop dark pal inp st1 (Suc ?p) ?m = Inr st2'"
      "emitted st2' = emitted st1 @ nm" "map position nm = filter ?Q [Suc ?p..<Suc ?p + ?m]"
    using for_loop_trace [OF ne sy1, of dark inp "Suc ?p" ?m] by blast
  have e2: "emitted st2 = emitted st1 @ nm" using s2(1) t2(1,2) by simp
  have "scan dark pal inp (Suc ?p + ?m) = for_loop dark pal inp st1 (0 + Suc ?p) ?m"
    unfolding scan_def for_loop_add using sc1 by (simp add: scan_def)
  then have sc2: "scan dark pal inp ?q = Inr st2" using s2(1) by simp
  have d2: "depth st2 = depth st0 + 1"
    using s2(2,3) sy1 s1(4) by (simp add: synced_def)
  \<comment> \<open>the closing delimiter\<close>
  have ns: "colorStack st2 \<noteq> []" using s2(3) s1(2) by simp
  have cq: "isClosing (inp ! ?q)" using cl at_q by simp
  let ?d2 = "decorated dark inp ?q bc st2"
  have la: "last (colorStack st2) = bc" using s2(3) s1(2) by simp
  obtain st3 where s3: "loop_body dark pal inp ?q st2 = Inr st3"
      "emitted st3 = emitted st2 @ [?d2]"
    using loop_body_close_pop [OF cq ns, of dark pal] la by simp
  have sc3: "scan dark pal inp (Suc ?q) = Inr st3" using scan_Suc [OF sc2] s3(1) by simp
  have sy3: "synced pal st3" using loop_body_synced [OF ne s2(2), of dark inp ?q] s3(1) by simp
  \<comment> \<open>the passes after the closing delimiter\<close>
  obtain st4 np where s4: "for_loop dark pal inp st3 (Suc ?q) (length post) = Inr st4"
      "emitted st4 = emitted st3 @ np"
    using for_loop_trace [OF ne sy3, of dark inp "Suc ?q" "length post"] by blast
  have "scan dark pal inp (Suc ?q + length post) = for_loop dark pal inp st3 (0 + Suc ?q) (length post)"
    unfolding scan_def for_loop_add using sc3 by (simp add: scan_def)
  then have sc4: "scan dark pal inp (length inp) = Inr st4" using s4(1) len by simp
  have em: "emitted st4 = n0 @ ?d1 # nm @ ?d2 # np"
    using s4(2) s3(2) e2 s1(3) e0 by simp
  \<comment> \<open>looking the two decorations up\<close>
  have b0: "\<forall>d \<in> set n0. position d < ?p"
    using trace_positions [OF s0(4)] by simp
  have bm: "\<forall>d \<in> set nm. position d < ?q"
    using trace_positions [OF t2(3)] by simp
  have f1: "decoration_at (emitted st4) ?p = Some ?d1"
  proof -
    have "\<forall>d \<in> set n0. \<not> position d = ?p" using b0 by auto
    then show ?thesis unfolding decoration_at_def em
      by (simp add: find_skip decorated_def)
  qed
  have f2: "decoration_at (emitted st4) ?q = Some ?d2"
  proof -
    have "\<forall>d \<in> set (n0 @ ?d1 # nm). \<not> position d = ?q"
      using b0 bm by (auto simp: decorated_def)
    then have "List.find (\<lambda>d. position d = ?q) ((n0 @ ?d1 # nm) @ ?d2 # np)
        = List.find (\<lambda>d. position d = ?q) (?d2 # np)"
      by (rule find_skip)
    then show ?thesis unfolding decoration_at_def em by (simp add: decorated_def)
  qed
  have "scan dark pal inp (length inp) = Inr st4
      \<and> decoration_at (emitted st4) (length pre) = Some ?d1
      \<and> decoration_at (emitted st4) (length pre + 1 + length mid) = Some ?d2
      \<and> scan dark pal inp (length pre) = Inr st0
      \<and> scan dark pal inp (length pre + 1) = Inr st1
      \<and> colorStack st1 = colorStack st0 @ [baseColor ?d1]
      \<and> delimiter ?d1 = op
      \<and> hexColor ?d1 = paint dark (baseColor ?d1) (adjustDepth ?d1)
      \<and> baseColor ?d2 = baseColor ?d1
      \<and> adjustDepth ?d2 = adjustDepth ?d1 + 1
      \<and> hexColor ?d2 = paint dark (baseColor ?d1) (adjustDepth ?d1 + 1)
      \<and> delimiter ?d2 = cl"
    using sc4 f1 f2 sc0 sc1 s1(2) d2 at_p at_q by (simp add: decorated_def)
  then show ?thesis by blast
qed

lemma pair_opening_closing:
  "(op, cl) \<in> set delimiter_pairs \<Longrightarrow> isOpening op \<and> isClosing cl"
  by (force simp: isOpening_def isClosing_def)

lemma example_paren_x:
  "processText False constructor_baseColors ''(x)''
     = Inr (span_markup ''#981b1b'' CHR ''('' @ ''x'' @ span_markup ''#ad1f1f'' CHR '')'')"
  "paint False (constructor_baseColors ! 0) 0 = ''#981b1b''"
  "paint False (constructor_baseColors ! 0) 1 = ''#ad1f1f''"
  by code_simp+

text \<open>C3, as amended: for a properly matched pair the decoration of the closing delimiter
  has the base colour that was pushed onto the stack for its opener, and it is adjusted at
  the depth met at the closing delimiter, one more than the depth of the opener. For
  "(x)" in the light theme the "(" is coloured for depth 0, the ")" gets the same base
  colour coloured for depth 1, and "x" is copied as it is.\<close>

theorem matched_pair_shares_base_color:
  assumes "baseColors \<noteq> []" "inp = pre @ [op] @ mid @ [cl] @ post"
    "(op, cl) \<in> set delimiter_pairs" "spec_correctly_nested mid"
  shows "(\<exists>st st0 st1 d1 d2. scan dark baseColors inp (length inp) = Inr st
      \<and> decoration_at (emitted st) (length pre) = Some d1
      \<and> decoration_at (emitted st) (length pre + 1 + length mid) = Some d2
      \<and> scan dark baseColors inp (length pre) = Inr st0
      \<and> scan dark baseColors inp (length pre + 1) = Inr st1
      \<and> colorStack st1 = colorStack st0 @ [baseColor d1]
      \<and> delimiter d1 = op \<and> delimiter d2 = cl
      \<and> baseColor d2 = baseColor d1
      \<and> adjustDepth d2 = adjustDepth d1 + 1
      \<and> hexColor d1 = paint dark (baseColor d1) (adjustDepth d1)
      \<and> hexColor d2 = paint dark (baseColor d1) (adjustDepth d1 + 1))
    \<and> processText False constructor_baseColors ''(x)''
        = Inr (span_markup (paint False (constructor_baseColors ! 0) 0) CHR ''(''
               @ ''x'' @ span_markup (paint False (constructor_baseColors ! 0) 1) CHR '')'')"
proof -
  have oc: "isOpening op" "isClosing cl" using pair_opening_closing [OF assms(3)] by simp_all
  have n: "spec_nested [] mid" using assms(4) by (simp add: spec_correctly_nested_def)
  obtain st st0 st1 d1 d2 where r: "scan dark baseColors inp (length inp) = Inr st"
      "decoration_at (emitted st) (length pre) = Some d1"
      "decoration_at (emitted st) (length pre + 1 + length mid) = Some d2"
      "scan dark baseColors inp (length pre) = Inr st0"
      "scan dark baseColors inp (length pre + 1) = Inr st1"
      "colorStack st1 = colorStack st0 @ [baseColor d1]"
      "delimiter d1 = op"
      "hexColor d1 = paint dark (baseColor d1) (adjustDepth d1)"
      "baseColor d2 = baseColor d1"
      "adjustDepth d2 = adjustDepth d1 + 1"
      "hexColor d2 = paint dark (baseColor d1) (adjustDepth d1 + 1)"
      "delimiter d2 = cl"
    using matched_pair [OF assms(1,2) oc n, of dark] by blast
  have "\<exists>st st0 st1 d1 d2. scan dark baseColors inp (length inp) = Inr st
      \<and> decoration_at (emitted st) (length pre) = Some d1
      \<and> decoration_at (emitted st) (length pre + 1 + length mid) = Some d2
      \<and> scan dark baseColors inp (length pre) = Inr st0
      \<and> scan dark baseColors inp (length pre + 1) = Inr st1
      \<and> colorStack st1 = colorStack st0 @ [baseColor d1]
      \<and> delimiter d1 = op \<and> delimiter d2 = cl
      \<and> baseColor d2 = baseColor d1
      \<and> adjustDepth d2 = adjustDepth d1 + 1
      \<and> hexColor d1 = paint dark (baseColor d1) (adjustDepth d1)
      \<and> hexColor d2 = paint dark (baseColor d1) (adjustDepth d1 + 1)"
    using r by blast
  then show ?thesis by (simp only: example_paren_x simp_thms)
qed

theorem matched_pair_shares_base_color_witness:
  "\<exists>st d1 d2. scan True constructor_baseColors ''a(b[c]d)e'' 9 = Inr st
      \<and> decoration_at (emitted st) 1 = Some d1 \<and> decoration_at (emitted st) 7 = Some d2
      \<and> delimiter d1 = CHR ''('' \<and> delimiter d2 = CHR '')''
      \<and> baseColor d2 = baseColor d1 \<and> adjustDepth d2 = adjustDepth d1 + 1"
proof -
  have a: "''a(b[c]d)e'' = ''a'' @ [CHR ''(''] @ ''b[c]d'' @ [CHR '')''] @ ''e''" by simp
  have b: "(CHR ''('', CHR '')'') \<in> set delimiter_pairs" by (simp add: delimiter_pairs_def)
  have c: "spec_correctly_nested ''b[c]d''" by code_simp
  have n: "length ''a(b[c]d)e'' = 9" "length ''a'' = 1" "(1::nat) + 1 + length ''b[c]d'' = 7"
    by simp_all
  from matched_pair_shares_base_color [OF constructor_baseColors_nonempty a b c, of True]
  show ?thesis unfolding n by blast
qed

text \<open>C3, as stated, has the closing delimiter of "(x)" coloured at depth 0 like its
  opener. The scan hands depth 1 to the adjuster there, and the text written is not the
  one with both spans coloured for depth 0.\<close>

theorem closing_paren_depth_counterexample:
  "depth_used_at (scan False constructor_baseColors ''(x)'' 3) 0 = Some 0
   \<and> depth_used_at (scan False constructor_baseColors ''(x)'' 3) 2 = Some 1
   \<and> processText False constructor_baseColors ''(x)''
       \<noteq> Inr (span_markup (paint False (constructor_baseColors ! 0) 0) CHR ''(''
              @ ''x'' @ span_markup (paint False (constructor_baseColors ! 0) 0) CHR '')'')"
  by code_simp

section \<open>Proofs: stripping the markup\<close>

lemma adjustColor_valid:
  assumes "valid_color bc" "0 \<le> d"
  shows "0 \<le> h (adjustColor dark bc d)"
    and "0 \<le> s (adjustColor dark bc d)" and "s (adjustColor dark bc d) \<le> 100"
    and "0 \<le> l (adjustColor dark bc d)" and "l (adjustColor dark bc d) \<le> 100"
proof -
  have m: "0 \<le> d mod 3" "d mod 3 < 3" by simp_all
  have q: "0 \<le> d div 3" using assms(2) by simp
  have r: "js_rem d 3 = d mod 3" using assms(2) by (simp add: js_rem_nonneg)
  show "0 \<le> h (adjustColor dark bc d)" using assms(1) by (simp add: adjustColor_def valid_color_def)
  show "0 \<le> s (adjustColor dark bc d)" by (simp add: adjustColor_def Let_def)
  have "s bc - rat_of_int (d div 3 * 10) \<le> 100"
    using assms(1) q by (simp add: valid_color_def)
  then show "s (adjustColor dark bc d) \<le> 100"
    by (simp add: adjustColor_def Let_def floor_third)
  have "0 \<le> (if dark then 65 else 35) + d mod 3 * (if dark then - 5 else 5)"
    "(if dark then 65 else 35) + d mod 3 * (if dark then - 5 else 5) \<le> 100"
    using m by (cases dark; simp; linarith)+
  then have "(0::rat) \<le> of_int ((if dark then 65 else 35) + d mod 3 * (if dark then - 5 else 5))"
    "(of_int ((if dark then 65 else 35) + d mod 3 * (if dark then - 5 else 5))::rat) \<le> 100"
    by (simp_all only: of_int_0_le_iff of_int_le_numeral_iff)
  then show "0 \<le> l (adjustColor dark bc d)" "l (adjustColor dark bc d) \<le> 100"
    by (simp_all add: adjustColor_def Let_def r)
qed

lemma paint_wf:
  assumes "valid_color bc" "0 \<le> d"
  shows "wf_hex (paint dark bc d)"
proof -
  note a = adjustColor_valid [OF assms, of dark]
  let ?v = "HSL_TO_RGB_convert (h (adjustColor dark bc d)) (s (adjustColor dark bc d))
              (l (adjustColor dark bc d))"
  note t = toHex_channels [OF convert_channels [OF a]]
  have "list_all isHexDigit (tl (toHex ?v))" using t(3) by (simp add: list_all_iff)
  then show ?thesis using t(1,2) by (simp add: wf_hex_def paint_def hslToHex_def Let_def)
qed

lemma isHexDigit_plain: "isHexDigit c \<Longrightarrow> plain c"
  by (auto simp: isHexDigit_def hexDigits_def plain_def isOpening_def isClosing_def delimiter_pairs_def)

lemma span_open_plain: "\<forall>c \<in> set span_open. plain c"
  by (simp add: span_open_def plain_def isOpening_def isClosing_def delimiter_pairs_def)

lemma span_mid_plain: "\<forall>c \<in> set span_mid. plain c"
  by (simp add: span_mid_def plain_def isOpening_def isClosing_def delimiter_pairs_def)

lemma hash_plain: "plain CHR ''#''"
  by (simp add: plain_def isOpening_def isClosing_def delimiter_pairs_def)

lemma wf_hex_explicit:
  assumes "wf_hex hex"
  obtains a1 a2 a3 a4 a5 a6 where "hex = [CHR ''#'', a1, a2, a3, a4, a5, a6]"
    "isHexDigit a1" "isHexDigit a2" "isHexDigit a3" "isHexDigit a4" "isHexDigit a5" "isHexDigit a6"
proof -
  have "length hex = 7" using assms by (simp add: wf_hex_def)
  then obtain a0 a1 a2 a3 a4 a5 a6 where e: "hex = [a0, a1, a2, a3, a4, a5, a6]"
    by (auto simp: eval_nat_numeral length_Suc_conv)
  then show thesis using assms that by (simp add: wf_hex_def)
qed

lemma span_markup_wrapper:
  assumes "wf_hex hex" "\<not> plain c"
  shows "spec_wrapper_at (span_markup hex c @ out)"
    and "(span_markup hex c @ out) ! 29 = c"
    and "drop 37 (span_markup hex c @ out) = out"
    and "span_markup hex c @ out \<noteq> []"
proof -
  obtain a1 a2 a3 a4 a5 a6 where e: "hex = [CHR ''#'', a1, a2, a3, a4, a5, a6]"
    "isHexDigit a1" "isHexDigit a2" "isHexDigit a3" "isHexDigit a4" "isHexDigit a5" "isHexDigit a6"
    using assms(1) by (rule wf_hex_explicit)
  have d: "isOpening c \<or> isClosing c" using assms(2) by (simp add: plain_def)
  show "(span_markup hex c @ out) ! 29 = c"
    by (simp add: e span_markup_def span_open_def span_mid_def span_close_def)
  show "drop 37 (span_markup hex c @ out) = out"
    by (simp add: e span_markup_def span_open_def span_mid_def span_close_def)
  show "span_markup hex c @ out \<noteq> []"
    by (simp add: span_markup_def span_open_def)
  show "spec_wrapper_at (span_markup hex c @ out)"
    using d e(2-) unfolding spec_wrapper_at_def
    by (simp add: e(1) span_markup_def span_open_def span_mid_def span_close_def)
qed

lemma strip_span:
  assumes "wf_hex hex" "\<not> plain c"
  shows "spec_strip_markup (span_markup hex c @ out) = c # spec_strip_markup out"
proof -
  note w = span_markup_wrapper [OF assms, of out]
  obtain x xs where e: "span_markup hex c @ out = x # xs" using w(4) by (cases "span_markup hex c @ out") auto
  show ?thesis using w(1-3) unfolding e by simp
qed

lemma wrapper_lead:
  assumes "spec_wrapper_at str"
  shows "lead str = 29"
proof -
  from assms have w: "37 \<le> length str" "take 20 str = span_open" "str ! 20 = CHR ''#''"
      "list_all isHexDigit (take 6 (drop 21 str))" "take 2 (drop 27 str) = span_mid"
      "\<not> plain (str ! 29)"
    by (simp_all add: spec_wrapper_at_def plain_def)
  have p: "plain (str ! i)" if i29: "i < 29" for i
  proof -
    consider "i < 20" | "i = 20" | "21 \<le> i" "i < 27" | "27 \<le> i" "i < 29"
      using i29 by atomize_elim linarith
    then show ?thesis
    proof cases
      case 1
      then have "str ! i = take 20 str ! i" by simp
      moreover have "take 20 str ! i \<in> set (take 20 str)" using 1 w(1) by (intro nth_mem) simp
      ultimately show ?thesis using span_open_plain w(2) by simp
    next
      case 2
      then show ?thesis using w(3) hash_plain by simp
    next
      case 3
      then have "str ! i = take 6 (drop 21 str) ! (i - 21)" using w(1) by simp
      moreover have "take 6 (drop 21 str) ! (i - 21) \<in> set (take 6 (drop 21 str))"
        using 3 w(1) by (intro nth_mem) simp
      ultimately show ?thesis using w(4) isHexDigit_plain by (simp add: list_all_iff)
    next
      case 4
      then have "str ! i = take 2 (drop 27 str) ! (i - 27)" using w(1) by simp
      moreover have "take 2 (drop 27 str) ! (i - 27) \<in> set (take 2 (drop 27 str))"
        using 4 w(1) by (intro nth_mem) simp
      ultimately show ?thesis using span_mid_plain w(5) by simp
    qed
  qed
  have "takeWhile plain str = take 29 str"
    using p w(6) by (intro takeWhile_eq_take_P_nth) simp_all
  then show ?thesis using w(1) by (simp add: lead_def)
qed

lemma rendering_lead:
  "rendering t out \<Longrightarrow> lead out = length out \<or> 29 \<le> lead out"
proof (induction rule: rendering.induct)
  case rendering_Nil
  then show ?case by (simp add: lead_def)
next
  case (rendering_plain c t out)
  then show ?case by (auto simp add: lead_def)
next
  case (rendering_span c hex t out)
  then show ?case using wrapper_lead [OF span_markup_wrapper(1)] by simp
qed

lemma strip_rendering: "rendering t out \<Longrightarrow> spec_strip_markup out = t"
proof (induction rule: rendering.induct)
  case rendering_Nil
  then show ?case by simp
next
  case (rendering_plain c t out)
  have "\<not> spec_wrapper_at (c # out)"
  proof
    assume w: "spec_wrapper_at (c # out)"
    then have "lead (c # out) = 29" by (rule wrapper_lead)
    then have "lead out = 28" using rendering_plain.hyps(1) by (simp add: lead_def)
    moreover have "37 \<le> length (c # out)" using w by (simp add: spec_wrapper_at_def)
    ultimately show False using rendering_lead [OF rendering_plain.hyps(2)] by simp
  qed
  then show ?case using rendering_plain.IH by simp
next
  case (rendering_span c hex t out)
  then show ?case by (simp add: strip_span)
qed

lemma rendering_append:
  "rendering t1 out1 \<Longrightarrow> rendering t2 out2 \<Longrightarrow> rendering (t1 @ t2) (out1 @ out2)"
  by (induction rule: rendering.induct) (auto intro: rendering.intros)

lemma rendering_literal: "\<forall>c \<in> set str. plain c \<Longrightarrow> rendering str str"
  by (induction str) (auto intro: rendering.intros)

lemma rendering_delimiter: "\<not> plain c \<Longrightarrow> wf_hex hex \<Longrightarrow> rendering [c] (span_markup hex c)"
  using rendering_span [OF _ _ rendering_Nil, of c hex] by simp

lemma valid_palette_generate:
  assumes "0 < count"
  shows "valid_palette (generateBaseColors count)"
proof -
  have "valid_color \<lparr>h = of_nat j * (360 / of_nat count), s = 70, l = 50, oid = j\<rparr>"
    if "j < count" for j
  proof -
    have "(of_nat j :: rat) < of_nat count" using that by simp
    then have "(of_nat j :: rat) * (360 / of_nat count) < 360"
      using assms by (simp add: field_simps)
    then show ?thesis by (simp add: valid_color_def)
  qed
  then show ?thesis using assms
    by (simp add: valid_palette_def generateBaseColors_eq list_all_iff)
qed

lemma rendering_step:
  assumes "rendering (take a inp) res" "a \<le> k" "k < length inp"
    "\<forall>j. a \<le> j \<and> j < k \<longrightarrow> plain (inp ! j)" "\<not> plain (inp ! k)" "wf_hex hex"
  shows "rendering (take (Suc k) inp) (res @ substring inp a k @ span_markup hex (inp ! k))"
proof -
  let ?lit = "take (k - a) (drop a inp)"
  have s: "substring inp a k = ?lit" using assms(2,3) by (simp add: substring_mid)
  have "plain c" if "c \<in> set ?lit" for c
  proof -
    from that obtain j where j: "j < length ?lit" "c = ?lit ! j" by (auto simp: in_set_conv_nth)
    then have "c = inp ! (a + j)" using assms(3) by simp
    moreover have "a + j < k" using j(1) assms(2) by auto
    ultimately show ?thesis using assms(4) by simp
  qed
  then have l: "rendering ?lit ?lit" by (intro rendering_literal) simp
  have "take k inp = take a inp @ ?lit"
    using assms(2) take_add [of a "k - a" inp] by simp
  then have t: "take (Suc k) inp = take a inp @ ?lit @ [inp ! k]"
    using assms(3) by (simp add: take_Suc_conv_app_nth)
  show ?thesis unfolding t s
    by (intro rendering_append assms(1) l rendering_delimiter assms(5,6))
qed

lemma scan_rendering:
  assumes "valid_palette pal"
  shows "k \<le> length inp \<Longrightarrow>
    \<exists>st. scan dark pal inp k = Inr st \<and> synced pal st \<and> lastIndex st \<le> k
       \<and> (\<forall>j. lastIndex st \<le> j \<and> j < k \<longrightarrow> plain (inp ! j))
       \<and> rendering (take (lastIndex st) inp) (result st)"
proof (induction k)
  case 0
  then show ?case
    by (simp add: scan_def initial_state_def synced_def rendering_Nil)
next
  case (Suc k)
  then obtain st where s: "scan dark pal inp k = Inr st" "synced pal st" "lastIndex st \<le> k"
      "\<forall>j. lastIndex st \<le> j \<and> j < k \<longrightarrow> plain (inp ! j)"
      "rendering (take (lastIndex st) inp) (result st)"
    by auto
  have ne: "pal \<noteq> []" and va: "\<And>c. c \<in> set pal \<Longrightarrow> valid_color c"
    using assms by (simp_all add: valid_palette_def list_all_iff)
  have kl: "k < length inp" using Suc.prems by simp
  have d0: "0 \<le> depth st" using s(2) by (simp add: synced_def)
  note n = scan_Suc [OF s(1)]
  obtain st' where b: "loop_body dark pal inp k st = Inr st'" "synced pal st'"
    using loop_body_synced [OF ne s(2)] by blast
  have step: "rendering (take (Suc k) inp)
      (result st @ substring inp (lastIndex st) k @ span_markup (paint dark bc (depth st)) (inp ! k))"
    if "bc \<in> set pal" "\<not> plain (inp ! k)" for bc
    using rendering_step [OF s(5) s(3) kl s(4) that(2) paint_wf [OF va [OF that(1)] d0]] .
  from ne s(2) show ?case
  proof (cases rule: loop_body_cases [where inp = inp and i = k and dark = dark])
    case plain
    then have "\<forall>j. lastIndex st \<le> j \<and> j < Suc k \<longrightarrow> plain (inp ! j)"
      using s(4) by (auto simp: plain_def less_Suc_eq)
    then show ?thesis using plain(3) n s by auto
  next
    case (opens bc u)
    have "\<not> plain (inp ! k)" using opens(1) by (simp add: plain_def)
    from step [OF opens(4) this] show ?thesis using opens(5) n b by auto
  next
    case pops
    have "last (colorStack st) \<in> set pal" using pops(3) s(2) by (auto simp: synced_def)
    moreover have "\<not> plain (inp ! k)" using pops(1) by (simp add: plain_def)
    ultimately show ?thesis using step pops(4) n b by auto
  next
    case (falls bc u)
    have "\<not> plain (inp ! k)" using falls(1) by (simp add: plain_def)
    from step [OF falls(6) this] show ?thesis using falls(7) n b by auto
  qed
qed

lemma scan_literal:
  "k \<le> length inp \<Longrightarrow> \<forall>c \<in> set inp. plain c \<Longrightarrow> scan dark pal inp k = Inr initial_state"
proof (induction k)
  case 0
  then show ?case by (simp add: scan_def)
next
  case (Suc k)
  then have "plain (inp ! k)" by simp
  then have "loop_body dark pal inp k initial_state = Inr initial_state"
    by (simp add: plain_def loop_body_other)
  then show ?case using Suc scan_Suc [of dark pal inp k initial_state] by simp
qed

lemma processText_rendering:
  assumes "valid_palette pal"
  shows "\<exists>out. processText dark pal inp = Inr out \<and> rendering inp out"
proof -
  obtain st where s: "scan dark pal inp (length inp) = Inr st" "lastIndex st \<le> length inp"
      "\<forall>j. lastIndex st \<le> j \<and> j < length inp \<longrightarrow> plain (inp ! j)"
      "rendering (take (lastIndex st) inp) (result st)"
    using scan_rendering [OF assms, of "length inp" inp dark] by auto
  let ?tail = "drop (lastIndex st) inp"
  have "plain c" if "c \<in> set ?tail" for c
  proof -
    from that obtain j where j: "j < length ?tail" "c = ?tail ! j" by (auto simp: in_set_conv_nth)
    then have "c = inp ! (lastIndex st + j)" using s(2) by simp
    moreover have "lastIndex st + j < length inp" using j(1) s(2) by auto
    ultimately show ?thesis using s(3) by simp
  qed
  then have "rendering ?tail ?tail" by (intro rendering_literal) simp
  from rendering_append [OF s(4) this]
  have "rendering inp (result st @ ?tail)" by simp
  then show ?thesis using s(1) by (simp add: processText_def substring_end)
qed

text \<open>C1: for every input text and either theme, processText returns, and stripping the
  colour spans from what it returns gives the input text back; a text without any
  delimiter, the empty text among them, is returned as it is.\<close>

theorem strip_markup_restores_text:
  assumes "valid_palette baseColors"
  shows "\<exists>out. processText dark baseColors inp = Inr out \<and> spec_strip_markup out = inp
           \<and> (list_all (\<lambda>c. \<not> isOpening c \<and> \<not> isClosing c) inp \<longrightarrow> out = inp)"
proof -
  obtain out where o: "processText dark baseColors inp = Inr out" "rendering inp out"
    using processText_rendering [OF assms] by blast
  have "out = inp" if "list_all (\<lambda>c. \<not> isOpening c \<and> \<not> isClosing c) inp"
  proof -
    have "\<forall>c \<in> set inp. plain c" using that by (simp add: list_all_iff plain_def)
    then have "scan dark baseColors inp (length inp) = Inr initial_state"
      by (intro scan_literal) simp_all
    then show ?thesis using o(1)
      by (simp add: processText_def initial_state_def substring_end)
  qed
  then show ?thesis using o strip_rendering by blast
qed

lemma constructor_baseColors_valid: "valid_palette constructor_baseColors"
  unfolding constructor_baseColors_def by (rule valid_palette_generate) simp

theorem strip_markup_restores_text_witness:
  "(\<exists>out. processText True constructor_baseColors ''(f [x] {:k 1})'' = Inr out
          \<and> spec_strip_markup out = ''(f [x] {:k 1})'')
   \<and> processText True constructor_baseColors ''no delimiters'' = Inr ''no delimiters''
   \<and> processText False constructor_baseColors [] = Inr []"
proof -
  have a: "list_all (\<lambda>c. \<not> isOpening c \<and> \<not> isClosing c) ''no delimiters''" by code_simp
  have b: "list_all (\<lambda>c. \<not> isOpening c \<and> \<not> isClosing c) []" by simp
  show ?thesis
    using strip_markup_restores_text [OF constructor_baseColors_valid, of True "''(f [x] {:k 1})''"]
      strip_markup_restores_text [OF constructor_baseColors_valid, of True "''no delimiters''"]
      strip_markup_restores_text [OF constructor_baseColors_valid, of False "[]"] a b
    by auto
qed

end
